theory Spec2Isabelle
  imports Complex_Main "HOL-Library.Word" "HOL-Library.Signed_Division"
begin

section \<open>Go values\<close>

text \<open>
  Go's \<open>int\<close>, \<open>int64\<close> and \<open>time.Duration\<close> (nanoseconds) are 64-bit two's complement
  integers on the 64-bit targets: arithmetic wraps, comparisons read the signed value.
\<close>

type_synonym int64 = "64 word"

definition go_div :: "int64 \<Rightarrow> int64 \<Rightarrow> int64" where
  \<comment> \<open>Go's \<open>/\<close> on integers truncates towards zero.\<close>
  "go_div a b = word_of_int (sint a sdiv sint b)"

definition go_mod :: "int64 \<Rightarrow> int64 \<Rightarrow> int64" where
  \<comment> \<open>Go's \<open>%\<close>: the remainder has the sign of the dividend.\<close>
  "go_mod a b = word_of_int (sint a smod sint b)"

definition Millisecond :: int64 where
  "Millisecond = 1000000"

definition Second :: int64 where
  "Second = 1000000000"

subsection \<open>Allocation\<close>

text \<open>
  \<open>make([]T, n)\<close> with a length known only at run time goes through the runtime's
  \<open>makeslice\<close>. It panics when the length is negative or when the slice would take
  more than \<open>maxAlloc\<close> bytes (the address space of the heap, \<open>2 ^ 48\<close> bytes on
  linux/amd64), and its allocator stops the program when the machine has no memory left
  for the slice. \<open>mem\<close> is the number of bytes that the machine grants to one allocation
  of the run. \<open>makeslice mem elem n\<close> says that the call returns, the elements taking
  \<open>elem\<close> bytes each.
\<close>

definition maxAlloc :: nat where
  "maxAlloc = 2 ^ 48"

definition makeslice :: "nat \<Rightarrow> nat \<Rightarrow> int64 \<Rightarrow> bool" where
  "makeslice mem elem n =
     (0 \<le> sint n \<and> elem * nat (sint n) \<le> maxAlloc \<and> elem * nat (sint n) \<le> mem)"

subsection \<open>Errors\<close>

text \<open>
  A Go \<open>error\<close> is \<open>nil\<close> or an error value; the model writes it \<open>error option\<close>.
  \<open>EOF\<close>, \<open>DeadlineExceeded\<close> and \<open>Canceled\<close> are the sentinels \<open>io.EOF\<close>,
  \<open>context.DeadlineExceeded\<close> and \<open>context.Canceled\<close>; \<open>ErrorString\<close> is what
  \<open>errors.New\<close> builds; \<open>Wrapped\<close> is an error with an \<open>Unwrap\<close> method, as the
  \<open>*url.Error\<close> that \<open>http.Client\<close> returns.
\<close>

datatype error =
    EOF
  | DeadlineExceeded
  | Canceled
  | ErrorString string
  | Wrapped string error

fun errors_Is :: "error \<Rightarrow> error \<Rightarrow> bool" where
  "errors_Is (Wrapped msg inner) target =
     (Wrapped msg inner = target \<or> errors_Is inner target)"
| "errors_Is e target = (e = target)"

subsection \<open>float64\<close>

text \<open>
  A \<open>float64\<close> is a finite binary64 value, an infinity or a NaN. Finite values are kept
  as the real number they denote; every arithmetic result is rounded to the nearest
  binary64 value, ties to even, with gradual underflow and overflow to infinity. The two
  zeros are not told apart: they compare equal, and they differ only as divisors, which
  no division of this program has.
\<close>

datatype f64 = Fin real | PInf | NInf | NaN

fun bitlen_nat :: "nat \<Rightarrow> nat" where
  "bitlen_nat n = (if n = 0 then 0 else Suc (bitlen_nat (n div 2)))"

declare bitlen_nat.simps [simp del]

definition ilog2 :: "real \<Rightarrow> int" where
  \<comment> \<open>For \<open>0 < x\<close>: the exponent \<open>e\<close> with \<open>2 ^ e \<le> x < 2 ^ (e + 1)\<close>.\<close>
  "ilog2 x = (if 1 \<le> x then int (bitlen_nat (nat \<lfloor>x\<rfloor>)) - 1
              else - int (bitlen_nat (nat (\<lceil>1 / x\<rceil> - 1))))"

definition scale2 :: "real \<Rightarrow> int \<Rightarrow> real" where
  \<comment> \<open>\<open>x * 2 ^ k\<close> for an integer \<open>k\<close> of either sign.\<close>
  "scale2 x k = (if 0 \<le> k then x * 2 ^ nat k else x / 2 ^ nat (- k))"

definition round_even :: "real \<Rightarrow> int" where
  "round_even q =
     (let f = \<lfloor>q\<rfloor>; r = q - of_int f
      in if r < 1 / 2 then f else if 1 / 2 < r then f + 1
         else if even f then f else f + 1)"

definition ulp_exp :: "real \<Rightarrow> int" where
  \<comment> \<open>The exponent of the unit in the last place at \<open>0 < x\<close>: 53 significant bits, and
      the exponent of the leading bit not below -1022.\<close>
  "ulp_exp x = max (ilog2 x) (- 1022) - 52"

definition round_pos :: "real \<Rightarrow> f64" where
  \<comment> \<open>Rounding of \<open>0 < x\<close>; a result of \<open>2 ^ 1024\<close> or more overflows.\<close>
  "round_pos x =
     (let m = round_even (scale2 x (- ulp_exp x))
      in if 1024 \<le> ilog2 x \<or> (1023 \<le> ilog2 x \<and> 2 ^ 53 \<le> m) then PInf
         else Fin (scale2 (of_int m) (ulp_exp x)))"

fun f64_neg :: "f64 \<Rightarrow> f64" where
  "f64_neg (Fin x) = Fin (- x)"
| "f64_neg PInf = NInf"
| "f64_neg NInf = PInf"
| "f64_neg NaN = NaN"

definition round_f64 :: "real \<Rightarrow> f64" where
  "round_f64 x =
     (if x = 0 then Fin 0 else if 0 < x then round_pos x else f64_neg (round_pos (- x)))"

definition float64 :: "int64 \<Rightarrow> f64" where
  \<comment> \<open>The conversion \<open>float64(n)\<close> of a signed integer.\<close>
  "float64 n = round_f64 (of_int (sint n))"

definition float64_len :: "nat \<Rightarrow> f64" where
  \<comment> \<open>\<open>float64(len(s))\<close>.\<close>
  "float64_len n = round_f64 (of_nat n)"

fun f64_is_neg :: "f64 \<Rightarrow> bool" where
  "f64_is_neg (Fin x) = (x < 0)"
| "f64_is_neg NInf = True"
| "f64_is_neg _ = False"

definition f64_inf :: "bool \<Rightarrow> f64" where
  "f64_inf negative = (if negative then NInf else PInf)"

definition f64_mul :: "f64 \<Rightarrow> f64 \<Rightarrow> f64" where
  "f64_mul a b =
     (case (a, b) of
        (Fin x, Fin y) \<Rightarrow> round_f64 (x * y)
      | _ \<Rightarrow> if a = NaN \<or> b = NaN \<or> a = Fin 0 \<or> b = Fin 0 then NaN
             else f64_inf (f64_is_neg a \<noteq> f64_is_neg b))"

definition f64_div :: "f64 \<Rightarrow> f64 \<Rightarrow> f64" where
  "f64_div a b =
     (case (a, b) of
        (Fin x, Fin y) \<Rightarrow>
          if y = 0 then (if x = 0 then NaN else f64_inf (x < 0)) else round_f64 (x / y)
      | (Fin x, _) \<Rightarrow> if b = NaN then NaN else Fin 0
      | (_, Fin y) \<Rightarrow> if a = NaN then NaN else f64_inf (f64_is_neg a \<noteq> (y < 0))
      | _ \<Rightarrow> NaN)"

definition f64_add :: "f64 \<Rightarrow> f64 \<Rightarrow> f64" where
  "f64_add a b =
     (case (a, b) of
        (Fin x, Fin y) \<Rightarrow> round_f64 (x + y)
      | (Fin x, _) \<Rightarrow> b
      | (_, Fin y) \<Rightarrow> a
      | _ \<Rightarrow> if a = b then a else NaN)"

fun f64_lt :: "f64 \<Rightarrow> f64 \<Rightarrow> bool" where
  "f64_lt (Fin x) (Fin y) = (x < y)"
| "f64_lt (Fin x) PInf = True"
| "f64_lt NInf (Fin y) = True"
| "f64_lt NInf PInf = True"
| "f64_lt _ _ = False"

definition f64_le :: "f64 \<Rightarrow> f64 \<Rightarrow> bool" where
  "f64_le a b = (f64_lt a b \<or> (a = b \<and> a \<noteq> NaN))"

fun f64_ceil :: "f64 \<Rightarrow> f64" where
  \<comment> \<open>\<open>math.Ceil\<close>.\<close>
  "f64_ceil (Fin x) = Fin (of_int \<lceil>x\<rceil>)"
| "f64_ceil a = a"

definition int_of_f64 :: "f64 \<Rightarrow> int64" where
  \<comment> \<open>The conversion \<open>int(x)\<close>: truncation towards zero. For a NaN, an infinity or a
      value out of range Go leaves the result to the platform; amd64 gives the least
      integer.\<close>
  "int_of_f64 a =
     (case a of
        Fin x \<Rightarrow>
          (let t = (if 0 \<le> x then \<lfloor>x\<rfloor> else \<lceil>x\<rceil>)
           in if - (2 ^ 63) \<le> t \<and> t < 2 ^ 63 then word_of_int t else - (2 ^ 63))
      | _ \<Rightarrow> - (2 ^ 63))"

definition Seconds :: "int64 \<Rightarrow> f64" where
  \<comment> \<open>\<open>time.Duration.Seconds\<close>: whole seconds plus the nanoseconds over \<open>1e9\<close>.\<close>
  "Seconds d =
     f64_add (float64 (go_div d Second)) (f64_div (float64 (go_mod d Second)) (Fin 1000000000))"

definition Milliseconds :: "int64 \<Rightarrow> int64" where
  \<comment> \<open>\<open>time.Duration.Milliseconds\<close>.\<close>
  "Milliseconds d = go_div d Millisecond"

subsection \<open>Strings\<close>

definition TrimRight :: "string \<Rightarrow> string \<Rightarrow> string" where
  \<comment> \<open>\<open>strings.TrimRight(s, cutset)\<close> for an ASCII cutset.\<close>
  "TrimRight s cutset = rev (dropWhile (\<lambda>c. c \<in> set cutset) (rev s))"

fun digits :: "nat \<Rightarrow> string" where
  "digits n =
     (if n < 10 then [''0123456789'' ! n]
      else digits (n div 10) @ [''0123456789'' ! (n mod 10)])"

declare digits.simps [simp del]

definition format_d :: "int64 \<Rightarrow> string" where
  \<comment> \<open>The verb \<open>%d\<close> of \<open>fmt.Sprintf\<close> on an \<open>int64\<close>.\<close>
  "format_d n =
     (if sint n < 0 then CHR ''-'' # digits (nat (- sint n)) else digits (nat (sint n)))"

section \<open>The data model (structs.go)\<close>

definition DefaultClientBase :: string where
  "DefaultClientBase = ''https://speed.getanswers.pro''"

definition DefaultDuration :: int64 where
  "DefaultDuration = 12 * Second"

definition DefaultStreams :: int64 where
  "DefaultStreams = 1"

definition DefaultChunkSize :: int64 where
  "DefaultChunkSize = 64 * 1024"

definition DefaultDownloadMB :: int64 where
  "DefaultDownloadMB = 40"

definition DefaultPingCount :: int64 where
  "DefaultPingCount = 6"

definition DefaultTimeout :: int64 where
  "DefaultTimeout = 30 * Second"

text \<open>
  \<open>Progress\<close> is the callback \<open>func(ProgressUpdate)\<close> of the source or \<open>nil\<close>. The model
  keeps whether it is set; a call of it is recorded as the effect \<open>Deliver\<close> below.
\<close>

record ClientConfig =
  BaseURL :: string
  Duration :: int64
  Streams :: int64
  ChunkSize :: int64
  DownloadMB :: int64
  PingCount :: int64
  Timeout :: int64
  JSON :: bool
  Progress :: bool

record ProgressUpdate =
  Phase :: string
  Percent :: f64
  Mbps :: f64
  PingMs :: f64

record PingMetrics =
  Min_ping :: int64
  Avg :: int64
  P95 :: int64

record SpeedMetrics =
  Mbps :: f64
  Bytes :: int64
  Duration :: int64

record Result =
  Ping :: PingMetrics
  Download :: SpeedMetrics
  Upload :: SpeedMetrics

definition zero_PingMetrics :: PingMetrics where
  \<comment> \<open>\<open>PingMetrics{}\<close>.\<close>
  "zero_PingMetrics = \<lparr>Min_ping = 0, Avg = 0, P95 = 0\<rparr>"

definition zero_SpeedMetrics :: SpeedMetrics where
  \<comment> \<open>\<open>SpeedMetrics{}\<close>.\<close>
  "zero_SpeedMetrics = \<lparr>SpeedMetrics.Mbps = Fin 0, Bytes = 0, Duration = 0\<rparr>"

definition zero_Result :: Result where
  \<comment> \<open>\<open>Result{}\<close>.\<close>
  "zero_Result =
     \<lparr>Ping = zero_PingMetrics, Download = zero_SpeedMetrics, Upload = zero_SpeedMetrics\<rparr>"

section \<open>The measurement engine (ispeed.go)\<close>

subsection \<open>normalizeClientConfig\<close>

definition normalizeClientConfig :: "ClientConfig \<Rightarrow> ClientConfig" where
  "normalizeClientConfig cfg0 =
     (let cfg = (if BaseURL cfg0 = [] then cfg0\<lparr>BaseURL := DefaultClientBase\<rparr> else cfg0);
          cfg = cfg\<lparr>BaseURL := TrimRight (BaseURL cfg) ''/''\<rparr>;
          cfg = (if sint (ClientConfig.Duration cfg) \<le> 0
                 then cfg\<lparr>ClientConfig.Duration := DefaultDuration\<rparr> else cfg);
          cfg = (if sint (Streams cfg) < 1 then cfg\<lparr>Streams := DefaultStreams\<rparr> else cfg);
          cfg = (if sint (ChunkSize cfg) < 1024
                 then cfg\<lparr>ChunkSize := DefaultChunkSize\<rparr> else cfg);
          cfg = (if sint (DownloadMB cfg) < 1
                 then cfg\<lparr>DownloadMB := DefaultDownloadMB\<rparr> else cfg);
          cfg = (if sint (PingCount cfg) < 1 then cfg\<lparr>PingCount := DefaultPingCount\<rparr> else cfg);
          cfg = (if sint (Timeout cfg) \<le> 0 then cfg\<lparr>Timeout := DefaultTimeout\<rparr> else cfg)
      in cfg)"

subsection \<open>Effects\<close>

text \<open>
  What the engine does to the outside is kept as a list of effects, in the order they
  happen: the HTTP requests it issues, its pauses, and its calls of the progress callback.
\<close>

datatype effect =
    HttpGet string
  | HttpPost string
  | Sleep int64
  | Deliver ProgressUpdate

subsection \<open>reportProgress and the statistics\<close>

definition reportProgress :: "ClientConfig \<Rightarrow> string \<Rightarrow> f64 \<Rightarrow> f64 \<Rightarrow> f64 \<Rightarrow> effect list" where
  "reportProgress cfg phase percent0 mbps0 pingMs0 =
     (if \<not> Progress cfg then []
      else
        let percent = (if f64_lt percent0 (Fin 0) then Fin 0 else percent0);
            percent = (if f64_lt (Fin 100) percent then Fin 100 else percent);
            mbps = (if f64_lt mbps0 (Fin 0) then Fin 0 else mbps0);
            pingMs = (if f64_lt pingMs0 (Fin 0) then Fin 0 else pingMs0)
        in [Deliver \<lparr>Phase = phase, Percent = percent, ProgressUpdate.Mbps = mbps,
                      PingMs = pingMs\<rparr>])"

definition avgDuration :: "int64 list \<Rightarrow> int64" where
  "avgDuration items =
     (if length items = 0 then 0
      else go_div (fold (\<lambda>item total. total + item) items 0) (of_nat (length items)))"

definition percentileDuration :: "int64 list \<Rightarrow> f64 \<Rightarrow> int64" where
  "percentileDuration items percentile =
     (if length items = 0 then 0
      else if f64_le percentile (Fin 0) then items ! 0
      else if f64_le (Fin 1) percentile then items ! (length items - 1)
      else
        let index = sint (int_of_f64 (f64_ceil (f64_mul (float64_len (length items)) percentile)) - 1);
            index = max index 0;
            index = (if int (length items) \<le> index then int (length items) - 1 else index)
        in items ! nat index)"

definition bytesToMbps :: "int64 \<Rightarrow> int64 \<Rightarrow> f64" where
  "bytesToMbps bytes duration =
     (if sint duration \<le> 0 then Fin 0
      else
        let bits = f64_mul (float64 bytes) (Fin 8)
        in f64_div (f64_div bits (Seconds duration)) (Fin 1000000))"

definition percentDone :: "int64 \<Rightarrow> int64 \<Rightarrow> f64" where
  "percentDone current total' =
     (if sint total' \<le> 0 then Fin 0
      else
        let percent = f64_mul (f64_div (float64 current) (float64 total')) (Fin 100)
        in if f64_lt percent (Fin 0) then Fin 0
           else if f64_lt (Fin 100) percent then Fin 100
           else percent)"

definition percentElapsed :: "int64 \<Rightarrow> int64 \<Rightarrow> f64" where
  "percentElapsed elapsed target =
     (if sint target \<le> 0 then Fin 0
      else
        let percent = f64_mul (f64_div (Seconds elapsed) (Seconds target)) (Fin 100)
        in if f64_lt percent (Fin 0) then Fin 0
           else if f64_lt (Fin 100) percent then Fin 100
           else percent)"

subsection \<open>runPing\<close>

text \<open>
  What the network and the clock answer to the i-th probe: the error of \<open>client.Get\<close>
  or \<open>nil\<close>, and the two readings of \<open>time.Since(start)\<close> the loop body takes, the
  first for the sample and the second for the progress event.
\<close>

record probe =
  get_err :: "error option"
  since_sample :: int64
  since_report :: int64

function ping_loop ::
  "(nat \<Rightarrow> probe) \<Rightarrow> ClientConfig \<Rightarrow> int64 \<Rightarrow> int64 list \<Rightarrow> effect list
     \<Rightarrow> int64 list \<times> error option \<times> effect list" where
  "ping_loop net cfg i results fx =
     (if sint i < sint (PingCount cfg) then
        (let p = net (nat (sint i));
             fx = fx @ [HttpGet (BaseURL cfg @ ''/ping'')]
         in case get_err p of
              Some err \<Rightarrow> ([], Some err, fx)
            | None \<Rightarrow>
                ping_loop net cfg (i + 1) (results @ [since_sample p])
                  (fx @
                   reportProgress cfg ''ping''
                     (f64_mul (f64_div (float64 (i + 1)) (float64 (PingCount cfg))) (Fin 100))
                     (Fin 0) (float64 (Milliseconds (since_report p))) @
                   (if sint i < sint (PingCount cfg - 1) then [Sleep (150 * Millisecond)]
                    else [])))
      else (results, None, fx))"
  by pat_completeness auto
termination
proof -
  have succ: "sint (i + 1) = sint i + 1" if a: "sint i < sint n" for i n :: int64
  proof -
    have "sint n < 2 ^ 63"
      using sint_lt [of n] by simp
    with a have b: "sint i + 1 < 2 ^ 63" by simp
    have c: "- (2 ^ 63) \<le> sint i + 1"
      using sint_ge [of i] by simp
    have "sint (i + 1) = signed_take_bit 63 (sint i + 1)"
      by (simp add: sint_word_ariths)
    also have "\<dots> = sint i + 1"
      using b c by (simp add: signed_take_bit_int_eq_self)
    finally show ?thesis .
  qed
  show ?thesis
    by (relation "measure (\<lambda>(net, cfg, i, results, fx). nat (sint (PingCount cfg) - sint i))")
      (auto simp: succ)
qed

declare ping_loop.simps [simp del]

definition runPing ::
  "nat \<Rightarrow> (nat \<Rightarrow> probe) \<Rightarrow> ClientConfig
     \<Rightarrow> (PingMetrics \<times> error option \<times> effect list) option" where
  \<comment> \<open>\<open>None\<close>: the call does not return, \<open>make([]time.Duration, 0, cfg.PingCount)\<close>
      failing for a slice of 8-byte elements.\<close>
  "runPing mem net cfg =
     (if \<not> makeslice mem 8 (PingCount cfg) then None
      else
        case ping_loop net cfg 0 [] [] of
          (results, Some err, fx) \<Rightarrow> Some (zero_PingMetrics, Some err, fx)
        | (results, None, fx) \<Rightarrow>
            if length results = 0
            then Some (zero_PingMetrics, Some (ErrorString ''ping returned no data''), fx)
            else
              let sorted = sort_key sint results
              in Some (\<lparr>Min_ping = sorted ! 0, Avg = avgDuration sorted,
                         P95 = percentileDuration sorted (round_f64 (95 / 100))\<rparr>, None, fx))"

subsection \<open>Workers, the shared counter and the error slot\<close>

text \<open>
  The variables a phase shares among its goroutines: the byte counter \<open>totalBytes\<close>, the
  error slot \<open>runErr\<close> with its \<open>sync.Once\<close> (\<open>errOnce\<close>: whether it has fired), and
  the effects so far.
\<close>

record shared =
  totalBytes :: int64
  runErr :: "error option"
  errOnce :: bool
  effects :: "effect list"

definition setRunErr :: "error option \<Rightarrow> shared \<Rightarrow> shared" where
  "setRunErr err s =
     (if err = None then s
      else if errOnce s then s
      else s\<lparr>runErr := err, errOnce := True\<rparr>)"

text \<open>
  A goroutine is the list of the steps it takes on the shared variables, in program
  order. Each step is indivisible: \<open>atomic.AddInt64\<close> is one atomic read-modify-write,
  and \<open>sync.Once.Do\<close> runs its function under the Once's lock.
\<close>

datatype action =
    Effect effect
  | AtomicAddInt64 int64
  | SetRunErr "error option"

fun perform :: "action \<Rightarrow> shared \<Rightarrow> shared" where
  "perform (Effect e) s = s\<lparr>effects := effects s @ [e]\<rparr>"
| "perform (AtomicAddInt64 n) s = s\<lparr>totalBytes := totalBytes s + n\<rparr>"
| "perform (SetRunErr err) s = setRunErr err s"

text \<open>
  The scheduler's choices: \<open>Step i\<close> lets worker \<open>i\<close> take its next step, \<open>Tick d\<close> is
  the progress ticker firing when \<open>time.Since(progressStart)\<close> reads \<open>d\<close>. A choice of
  a worker that has finished is skipped; when the choices run out, the workers that
  are left run to their ends one after the other. Every interleaving of the workers'
  steps is the run of some list of choices. \<open>sample\<close> is the ticker's body: from the
  current counter and the elapsed time to the events it delivers.
\<close>

datatype choice = Step nat | Tick int64

fun run_workers ::
  "(int64 \<Rightarrow> int64 \<Rightarrow> effect list) \<Rightarrow> choice list \<Rightarrow> action list list \<Rightarrow> shared \<Rightarrow> shared" where
  "run_workers sample [] ws s = fold (\<lambda>w. fold perform w) ws s"
| "run_workers sample (Step i # sched) ws s =
     (if i < length ws \<and> ws ! i \<noteq> []
      then run_workers sample sched (ws[i := tl (ws ! i)]) (perform (hd (ws ! i)) s)
      else run_workers sample sched ws s)"
| "run_workers sample (Tick d # sched) ws s =
     run_workers sample sched ws (s\<lparr>effects := effects s @ sample (totalBytes s) d\<rparr>)"

text \<open>
  What a phase meets outside: \<open>stream i\<close> is what the network does to worker \<open>i\<close>,
  \<open>schedule\<close> the scheduler's choices, \<open>elapsed\<close> the reading of \<open>time.Since(start)\<close>
  after \<open>wg.Wait()\<close>, and \<open>late_ticks\<close> the readings of the ticks the ticker goroutine
  still takes after \<open>progressDone\<close> is closed (its \<open>select\<close> may pick a pending tick
  over the closed channel).
\<close>

record 'a phase_env =
  stream :: "nat \<Rightarrow> 'a"
  schedule :: "choice list"
  elapsed :: int64
  late_ticks :: "int64 list"

definition initial_shared :: shared where
  "initial_shared = \<lparr>totalBytes = 0, runErr = None, errOnce = False, effects = []\<rparr>"

subsection \<open>runDownload\<close>

text \<open>
  What the network does to one download worker: \<open>http.NewRequestWithContext\<close> fails,
  \<open>client.Do\<close> fails, or there is a response whose body answers the successive calls
  of \<open>Read\<close> with a count and an error or \<open>nil\<close>. After the listed answers the next
  \<open>Read\<close> never returns.
\<close>

datatype download_script =
    NewRequestFails error
  | DoFails error
  | Body "(int64 \<times> error option) list"

fun download_reads :: "(int64 \<times> error option) list \<Rightarrow> action list option" where
  \<comment> \<open>The loop \<open>for { read, err := resp.Body.Read(buf) ... }\<close>; \<open>None\<close>: it never ends.\<close>
  "download_reads [] = None"
| "download_reads ((read, err) # rest) =
     (let add = (if 0 < sint read then [AtomicAddInt64 read] else [])
      in case err of
           Some e \<Rightarrow> Some (add @ (if \<not> errors_Is e EOF then [SetRunErr (Some e)] else []))
         | None \<Rightarrow> map_option (\<lambda>as. add @ as) (download_reads rest))"

definition download_worker ::
  "nat \<Rightarrow> ClientConfig \<Rightarrow> int64 \<Rightarrow> download_script \<Rightarrow> action list option" where
  \<comment> \<open>\<open>None\<close>: the goroutine never ends, or \<open>make([]byte, cfg.ChunkSize)\<close> fails, which
      stops the program.\<close>
  "download_worker mem cfg perStreamBytes script =
     (let url = BaseURL cfg @ ''/download?size='' @ format_d perStreamBytes
      in case script of
           NewRequestFails err \<Rightarrow> Some [SetRunErr (Some err)]
         | DoFails err \<Rightarrow> Some [Effect (HttpGet url), SetRunErr (Some err)]
         | Body reads \<Rightarrow>
             if \<not> makeslice mem 1 (ChunkSize cfg) then None
             else map_option (\<lambda>as. Effect (HttpGet url) # as) (download_reads reads))"

definition spawn :: "int64 \<Rightarrow> (nat \<Rightarrow> 'a) \<Rightarrow> 'a list" where
  \<comment> \<open>\<open>for i := 0; i < n; i++ { wg.Go(...) }\<close>: one goroutine for each \<open>i\<close> below \<open>n\<close>.\<close>
  "spawn n f = map f [0 ..< nat (sint n)]"

definition runDownload ::
  "nat \<Rightarrow> download_script phase_env \<Rightarrow> ClientConfig
     \<Rightarrow> (SpeedMetrics \<times> error option \<times> effect list) option" where
  "runDownload mem env cfg =
     (let perStreamBytes = DownloadMB cfg * 1024 * 1024;
          targetBytes = perStreamBytes * Streams cfg;
          sample = (\<lambda>current since.
            reportProgress cfg ''download'' (percentDone current targetBytes)
              (bytesToMbps current since) (Fin 0))
      in case those (spawn (Streams cfg) (\<lambda>i. download_worker mem cfg perStreamBytes (stream env i))) of
           None \<Rightarrow> None
         | Some workers \<Rightarrow>
             let s = run_workers sample (schedule env) workers initial_shared;
                 fx = effects s @
                      reportProgress cfg ''download'' (Fin 100)
                        (bytesToMbps (totalBytes s) (elapsed env)) (Fin 0) @
                      concat (map (sample (totalBytes s)) (late_ticks env))
             in if runErr s \<noteq> None then Some (zero_SpeedMetrics, runErr s, fx)
                else if totalBytes s = 0
                then Some (zero_SpeedMetrics, Some (ErrorString ''download returned no data''), fx)
                else Some (\<lparr>SpeedMetrics.Mbps = bytesToMbps (totalBytes s) (elapsed env),
                             Bytes = totalBytes s, Duration = elapsed env\<rparr>, None, fx))"

subsection \<open>timedReader and runUpload\<close>

text \<open>
  \<open>has_total\<close>: whether the pointer \<open>total\<close> is set. One call of \<open>Read\<close> meets the
  context's error or \<open>nil\<close>, the length of the buffer it is handed, and the error of
  \<open>rand.Read\<close> or \<open>nil\<close>.
\<close>

record timedReader =
  chunkSize :: int64
  count :: int64
  has_total :: bool

record read_call =
  ctx_err :: "error option"
  buf_len :: nat
  rand_err :: "error option"

definition timedReader_Read ::
  "timedReader \<Rightarrow> read_call \<Rightarrow> ((int64 \<times> error option) \<times> timedReader \<times> action list) option" where
  \<comment> \<open>\<open>None\<close>: the slice expression \<open>p[:t.chunkSize]\<close> panics on a negative bound.\<close>
  "timedReader_Read t c =
     (if ctx_err c \<noteq> None then Some ((0, ctx_err c), t, [])
      else if sint (chunkSize t) < int (buf_len c) \<and> sint (chunkSize t) < 0 then None
      else
        let len_p = (if sint (chunkSize t) < int (buf_len c) then nat (sint (chunkSize t))
                     else buf_len c)
        in case rand_err c of
             Some err \<Rightarrow> Some ((0, Some err), t, [])
           | None \<Rightarrow>
               let bytesRead = of_nat len_p
               in Some ((of_nat len_p, None), t\<lparr>count := count t + bytesRead\<rparr>,
                        if has_total t then [AtomicAddInt64 bytesRead] else []))"

fun reader_calls :: "timedReader \<Rightarrow> read_call list \<Rightarrow> (timedReader \<times> action list) option" where
  \<comment> \<open>The calls of \<open>Read\<close> the transport makes while it sends the request body.\<close>
  "reader_calls t [] = Some (t, [])"
| "reader_calls t (c # cs) =
     (case timedReader_Read t c of
        None \<Rightarrow> None
      | Some (res, t', as) \<Rightarrow> map_option (\<lambda>(t'', as'). (t'', as @ as')) (reader_calls t' cs))"

text \<open>
  What the network does to one upload worker: \<open>http.NewRequestWithContext\<close> fails, or
  \<open>client.Do\<close> runs, reading the body through the listed calls, and returns an error
  or a response.
\<close>

datatype upload_script =
    UploadRequestFails error
  | UploadDo "read_call list" "error option"

definition upload_worker :: "ClientConfig \<Rightarrow> upload_script \<Rightarrow> action list option" where
  "upload_worker cfg script =
     (let reader = \<lparr>chunkSize = ChunkSize cfg, count = 0, has_total = True\<rparr>
      in case script of
           UploadRequestFails err \<Rightarrow> Some [SetRunErr (Some err)]
         | UploadDo calls res \<Rightarrow>
             (case reader_calls reader calls of
                None \<Rightarrow> None
              | Some (reader', as) \<Rightarrow>
                  Some (Effect (HttpPost (BaseURL cfg @ ''/upload'')) # as @
                        (case res of
                           Some err \<Rightarrow>
                             if errors_Is err DeadlineExceeded \<or> errors_Is err Canceled then []
                             else [SetRunErr (Some err)]
                         | None \<Rightarrow> []))))"

definition runUpload ::
  "upload_script phase_env \<Rightarrow> ClientConfig
     \<Rightarrow> (SpeedMetrics \<times> error option \<times> effect list) option" where
  "runUpload env cfg =
     (let sample = (\<lambda>current since.
            reportProgress cfg ''upload'' (percentElapsed since (ClientConfig.Duration cfg))
              (bytesToMbps current since) (Fin 0))
      in case those (spawn (Streams cfg) (\<lambda>i. upload_worker cfg (stream env i))) of
           None \<Rightarrow> None
         | Some workers \<Rightarrow>
             let s = run_workers sample (schedule env) workers initial_shared;
                 fx = effects s @
                      reportProgress cfg ''upload'' (Fin 100)
                        (bytesToMbps (totalBytes s) (elapsed env)) (Fin 0) @
                      concat (map (sample (totalBytes s)) (late_ticks env))
             in if runErr s \<noteq> None then Some (zero_SpeedMetrics, runErr s, fx)
                else if totalBytes s = 0
                then Some (zero_SpeedMetrics, Some (ErrorString ''upload sent no data''), fx)
                else Some (\<lparr>SpeedMetrics.Mbps = bytesToMbps (totalBytes s) (elapsed env),
                             Bytes = totalBytes s, Duration = elapsed env\<rparr>, None, fx))"

subsection \<open>RunClient\<close>

record world =
  memory :: nat
  ping_net :: "nat \<Rightarrow> probe"
  download_net :: "download_script phase_env"
  upload_net :: "upload_script phase_env"

definition RunClient :: "world \<Rightarrow> ClientConfig \<Rightarrow> ((Result \<times> error option) \<times> effect list) option" where
  "RunClient w cfg0 =
     (let cfg = normalizeClientConfig cfg0
      in case runPing (memory w) (ping_net w) cfg of
           None \<Rightarrow> None
         | Some (pingRes, Some err, fx1) \<Rightarrow> Some ((zero_Result, Some err), fx1)
         | Some (pingRes, None, fx1) \<Rightarrow>
             (case runDownload (memory w) (download_net w) cfg of
                None \<Rightarrow> None
              | Some (downloadRes, Some err, fx2) \<Rightarrow> Some ((zero_Result, Some err), fx1 @ fx2)
              | Some (downloadRes, None, fx2) \<Rightarrow>
                  (case runUpload (upload_net w) cfg of
                     None \<Rightarrow> None
                   | Some (uploadRes, Some err, fx3) \<Rightarrow>
                       Some ((zero_Result, Some err), fx1 @ fx2 @ fx3)
                   | Some (uploadRes, None, fx3) \<Rightarrow>
                       Some ((\<lparr>Ping = pingRes, Download = downloadRes, Upload = uploadRes\<rparr>,
                              None), fx1 @ fx2 @ fx3))))"

subsection \<open>Ranges of a progress event\<close>

definition progress_in_range :: "ProgressUpdate \<Rightarrow> bool" where
  \<comment> \<open>Percent within \<open>[0, 100]\<close>, Mbps and latency not below \<open>0\<close>.\<close>
  "progress_in_range u =
     (f64_le (Fin 0) (Percent u) \<and> f64_le (Percent u) (Fin 100) \<and>
      f64_le (Fin 0) (ProgressUpdate.Mbps u) \<and> f64_le (Fin 0) (PingMs u))"

section \<open>The vocabulary of the claims\<close>

text \<open>
  The claims speak of the bytes a worker transfers and of the fatal error it meets.
  The functions of this section say what these are for a script of the network, in the
  words of the specification and apart from the code of the workers; the properties
  below relate the two.
\<close>

fun added :: "action \<Rightarrow> int64" where
  "added (AtomicAddInt64 n) = n"
| "added a = 0"

fun raised :: "action \<Rightarrow> error option" where
  "raised (SetRunErr err) = err"
| "raised a = None"

fun request :: "action \<Rightarrow> effect option" where
  "request (Effect e) = Some e"
| "request a = None"

fun body_bytes :: "(int64 \<times> error option) list \<Rightarrow> nat" where
  \<comment> \<open>The bytes of the chunks read, up to and with the read that ends the stream.\<close>
  "body_bytes [] = 0"
| "body_bytes ((n, err) # rest) =
     (if 0 < sint n then nat (sint n) else 0) + (if err = None then body_bytes rest else 0)"

fun body_fatal :: "(int64 \<times> error option) list \<Rightarrow> error option" where
  \<comment> \<open>The error of the read that ends the stream, unless it is the end of the stream.\<close>
  "body_fatal [] = None"
| "body_fatal ((n, None) # rest) = body_fatal rest"
| "body_fatal ((n, Some e) # rest) = (if errors_Is e EOF then None else Some e)"

fun body_ends :: "(int64 \<times> error option) list \<Rightarrow> bool" where
  "body_ends [] = False"
| "body_ends ((n, err) # rest) = (err \<noteq> None \<or> body_ends rest)"

fun download_bytes :: "download_script \<Rightarrow> nat" where
  "download_bytes (Body reads) = body_bytes reads"
| "download_bytes script = 0"

fun download_fatal :: "download_script \<Rightarrow> error option" where
  "download_fatal (NewRequestFails e) = Some e"
| "download_fatal (DoFails e) = Some e"
| "download_fatal (Body reads) = body_fatal reads"

fun download_ends :: "download_script \<Rightarrow> bool" where
  "download_ends (Body reads) = body_ends reads"
| "download_ends script = True"

fun generated :: "int64 \<Rightarrow> read_call list \<Rightarrow> nat" where
  \<comment> \<open>The bytes the random byte source yields: a call yields the buffer's length, at
      most the chunk size, unless the context is done or \<open>rand.Read\<close> fails.\<close>
  "generated chunk [] = 0"
| "generated chunk (c # cs) =
     (if ctx_err c = None \<and> rand_err c = None then min (buf_len c) (nat (sint chunk)) else 0) +
     generated chunk cs"

fun upload_bytes :: "int64 \<Rightarrow> upload_script \<Rightarrow> nat" where
  "upload_bytes chunk (UploadDo calls res) = generated chunk calls"
| "upload_bytes chunk script = 0"

definition expected_cancellation :: "error \<Rightarrow> bool" where
  "expected_cancellation e = (errors_Is e DeadlineExceeded \<or> errors_Is e Canceled)"

fun upload_fatal :: "upload_script \<Rightarrow> error option" where
  "upload_fatal (UploadRequestFails e) = Some e"
| "upload_fatal (UploadDo calls None) = None"
| "upload_fatal (UploadDo calls (Some e)) = (if expected_cancellation e then None else Some e)"

definition workers_of :: "ClientConfig \<Rightarrow> nat list" where
  \<comment> \<open>The indices of the workers of a phase.\<close>
  "workers_of cfg = [0 ..< nat (sint (Streams cfg))]"

definition download_total :: "download_script phase_env \<Rightarrow> ClientConfig \<Rightarrow> nat" where
  "download_total env cfg = sum_list (map (\<lambda>i. download_bytes (stream env i)) (workers_of cfg))"

definition download_fatals :: "download_script phase_env \<Rightarrow> ClientConfig \<Rightarrow> error list" where
  "download_fatals env cfg = List.map_filter (\<lambda>i. download_fatal (stream env i)) (workers_of cfg)"

definition upload_total :: "upload_script phase_env \<Rightarrow> ClientConfig \<Rightarrow> nat" where
  "upload_total env cfg =
     sum_list (map (\<lambda>i. upload_bytes (ChunkSize cfg) (stream env i)) (workers_of cfg))"

definition upload_fatals :: "upload_script phase_env \<Rightarrow> ClientConfig \<Rightarrow> error list" where
  "upload_fatals env cfg = List.map_filter (\<lambda>i. upload_fatal (stream env i)) (workers_of cfg)"

text \<open>
  What a list of workers adds to the counter and raises to the error slot in all, and
  whether the slot has been set.
\<close>

definition added_all :: "action list list \<Rightarrow> int64" where
  "added_all ws = sum_list (map (\<lambda>w. sum_list (map added w)) ws)"

definition raised_all :: "action list list \<Rightarrow> error list" where
  "raised_all ws = List.map_filter raised (concat ws)"

definition fired :: "shared \<Rightarrow> bool" where
  "fired s = (errOnce s \<and> runErr s \<noteq> None)"

text \<open>The HTTP requests among the effects of a run, and the events it delivers.\<close>

fun is_request :: "effect \<Rightarrow> bool" where
  "is_request (HttpGet url) = True"
| "is_request (HttpPost url) = True"
| "is_request e = False"

definition requests :: "effect list \<Rightarrow> effect list" where
  "requests fx = filter is_request fx"

fun delivery :: "effect \<Rightarrow> ProgressUpdate option" where
  "delivery (Deliver u) = Some u"
| "delivery e = None"

definition deliveries :: "effect list \<Rightarrow> ProgressUpdate list" where
  "deliveries fx = List.map_filter delivery fx"

definition events_in_range :: "effect list \<Rightarrow> bool" where
  \<comment> \<open>Every event among the effects is in range.\<close>
  "events_in_range fx = list_all progress_in_range (deliveries fx)"



definition ping_event :: "ClientConfig \<Rightarrow> (nat \<Rightarrow> probe) \<Rightarrow> nat \<Rightarrow> ProgressUpdate" where
  "ping_event cfg net i =
     \<lparr>Phase = ''ping'',
      Percent = f64_mul (f64_div (float64 (of_nat (i + 1))) (float64 (PingCount cfg))) (Fin 100),
      ProgressUpdate.Mbps = Fin 0,
      PingMs = (if sint (Milliseconds (since_report (net i))) < 0 then Fin 0
                else float64 (Milliseconds (since_report (net i))))\<rparr>"

definition sample_event :: "ClientConfig \<Rightarrow> (nat \<Rightarrow> probe) \<Rightarrow> nat \<Rightarrow> ProgressUpdate" where
  \<comment> \<open>The event of the i-th probe that carries the sample's round trip, in whole
      milliseconds.\<close>
  "sample_event cfg net i =
     \<lparr>Phase = ''ping'',
      Percent = f64_mul (f64_div (float64 (of_nat (i + 1))) (float64 (PingCount cfg))) (Fin 100),
      ProgressUpdate.Mbps = Fin 0,
      PingMs = (if sint (Milliseconds (since_sample (net i))) < 0 then Fin 0
                else float64 (Milliseconds (since_sample (net i))))\<rparr>"

text \<open>
  The throughput in the reals: bits over seconds over a million, the duration given in
  nanoseconds. \<open>eps64\<close> is the unit roundoff of binary64, and \<open>near k x y\<close> says that
  \<open>y\<close> is \<open>x\<close> up to \<open>k\<close> roundings.
\<close>

definition mbps_exact :: "real \<Rightarrow> real \<Rightarrow> real" where
  "mbps_exact bytes nanos = bytes * 8 / (nanos / 1000000000) / 1000000"

definition eps64 :: real where
  "eps64 = 1 / 2 ^ 53"

definition near :: "nat \<Rightarrow> real \<Rightarrow> real \<Rightarrow> bool" where
  "near k x y =
     (x * (1 - eps64) ^ k \<le> y * (1 + eps64) ^ k \<and> y * (1 - eps64) ^ k \<le> x * (1 + eps64) ^ k)"

section \<open>Concrete runs\<close>

text \<open>
  Inputs on which the engine is run below: a normalised configuration, and networks for
  the scenarios of the specification.
\<close>

definition example_memory :: nat where
  \<comment> \<open>A machine that grants allocations of up to 1 GiB.\<close>
  "example_memory = 2 ^ 30"

definition example_cfg :: ClientConfig where
  "example_cfg =
     \<lparr>BaseURL = ''http://h'', ClientConfig.Duration = 2000000000, Streams = 2,
      ChunkSize = 262144, DownloadMB = 1, PingCount = 3, Timeout = 5000000000, JSON = False,
      Progress = False\<rparr>"

definition reset :: error where
  "reset = Wrapped ''Get'' (ErrorString ''connection reset by peer'')"

definition ping_three :: "nat \<Rightarrow> probe" where
  \<comment> \<open>Three probes of 10, 20 and 30 ms.\<close>
  "ping_three i =
     \<lparr>get_err = None, since_sample = (10 + 10 * of_nat i) * Millisecond,
      since_report = (10 + 10 * of_nat i) * Millisecond\<rparr>"

definition ping_second_fails :: "nat \<Rightarrow> probe" where
  "ping_second_fails i =
     \<lparr>get_err = (if i = 1 then Some reset else None), since_sample = 10 * Millisecond,
      since_report = 10 * Millisecond\<rparr>"

definition download_two_streams :: "download_script phase_env" where
  \<comment> \<open>Two streams of 1,000,000 bytes each, joined after one second.\<close>
  "download_two_streams =
     \<lparr>stream = (\<lambda>i. Body [(600000, None), (400000, Some EOF)]),
      schedule = [Step 1, Step 0, Step 0, Tick 500000000, Step 1, Step 1],
      elapsed = 1000000000, late_ticks = []\<rparr>"

definition download_all_fail :: "download_script phase_env" where
  \<comment> \<open>The first read of every stream fails with a transport error.\<close>
  "download_all_fail =
     \<lparr>stream = (\<lambda>i. Body [(0, Some reset)]), schedule = [Step 1, Step 1], elapsed = 3000000,
      late_ticks = []\<rparr>"

definition download_nothing :: "download_script phase_env" where
  \<comment> \<open>Every stream ends at once, with no byte and no transport error.\<close>
  "download_nothing =
     \<lparr>stream = (\<lambda>i. Body [(0, Some EOF)]), schedule = [], elapsed = 3000000, late_ticks = []\<rparr>"

definition upload_deadline :: "upload_script phase_env" where
  \<comment> \<open>Worker 0 has generated 500,000 bytes when its deadline fires; worker 1 none.\<close>
  "upload_deadline =
     \<lparr>stream = (\<lambda>i. if i = 0
        then UploadDo [\<lparr>ctx_err = None, buf_len = 262144, rand_err = None\<rparr>,
                       \<lparr>ctx_err = None, buf_len = 237856, rand_err = None\<rparr>,
                       \<lparr>ctx_err = Some DeadlineExceeded, buf_len = 262144, rand_err = None\<rparr>]
               (Some (Wrapped ''Post'' DeadlineExceeded))
        else UploadDo [] (Some (Wrapped ''Post'' Canceled))),
      schedule = [Step 0, Step 1, Step 0], elapsed = 2000000000, late_ticks = []\<rparr>"

definition progress_cfg :: ClientConfig where
  \<comment> \<open>One probe, with a progress sink.\<close>
  "progress_cfg = example_cfg\<lparr>PingCount := 1, Progress := True\<rparr>"

definition ping_jitter :: "nat \<Rightarrow> probe" where
  \<comment> \<open>The clock passes a millisecond boundary between its two readings.\<close>
  "ping_jitter i = \<lparr>get_err = None, since_sample = 10999999, since_report = 11000001\<rparr>"


definition upload_all_fail :: "upload_script phase_env" where
  \<comment> \<open>Every request is refused before a byte is read.\<close>
  "upload_all_fail =
     \<lparr>stream = (\<lambda>i. UploadDo [] (Some reset)), schedule = [Step 1], elapsed = 3000000,
      late_ticks = []\<rparr>"

definition world_ok :: world where
  "world_ok =
     \<lparr>memory = example_memory, ping_net = ping_three, download_net = download_two_streams,
      upload_net = upload_deadline\<rparr>"

definition world_ping_fails :: world where
  "world_ping_fails =
     \<lparr>memory = example_memory, ping_net = ping_second_fails, download_net = download_two_streams,
      upload_net = upload_deadline\<rparr>"

definition world_download_fails :: world where
  "world_download_fails =
     \<lparr>memory = example_memory, ping_net = ping_three, download_net = download_all_fail,
      upload_net = upload_deadline\<rparr>"

definition world_upload_fails :: world where
  "world_upload_fails =
     \<lparr>memory = example_memory, ping_net = ping_three, download_net = download_two_streams,
      upload_net = upload_all_fail\<rparr>"

section \<open>Properties\<close>

subsection \<open>The configuration normaliser\<close>

lemma TrimRight_no_trailing:
  assumes "c \<in> set cutset"
  shows "TrimRight s cutset \<noteq> u @ [c]"
proof
  assume "TrimRight s cutset = u @ [c]"
  then have "rev (rev (dropWhile (\<lambda>c. c \<in> set cutset) (rev s))) = rev (u @ [c])"
    by (simp add: TrimRight_def)
  then have "dropWhile (\<lambda>c. c \<in> set cutset) (rev s) = c # rev u"
    by simp
  then have "\<not> c \<in> set cutset"
    using hd_dropWhile [of "\<lambda>c. c \<in> set cutset" "rev s"] by simp
  with assms show False by simp
qed

lemma takeWhile_eq_replicate:
  "takeWhile (\<lambda>x. x \<in> set [c]) xs = replicate (length (takeWhile (\<lambda>x. x \<in> set [c]) xs)) c"
  by (induction xs) auto

lemma TrimRight_decomp:
  "\<exists>k. s = TrimRight s [c] @ replicate k c"
proof -
  let ?P = "\<lambda>x. x \<in> set [c]"
  have "s = rev (dropWhile ?P (rev s)) @ rev (takeWhile ?P (rev s))"
    by (metis rev_append rev_rev_ident takeWhile_dropWhile_id)
  then have "s = TrimRight s [c] @ rev (takeWhile ?P (rev s))"
    by (simp add: TrimRight_def)
  also have "rev (takeWhile ?P (rev s)) = replicate (length (takeWhile ?P (rev s))) c"
    using takeWhile_eq_replicate [of c "rev s"] by (metis rev_replicate)
  finally show ?thesis by blast
qed

lemmas default_defs =
  DefaultClientBase_def DefaultDuration_def DefaultStreams_def DefaultChunkSize_def
  DefaultDownloadMB_def DefaultPingCount_def DefaultTimeout_def Second_def

text \<open>
  Claim C5. \<open>normalizeClientConfig\<close> is a total function with no error result. Its
  output has the base URL of the input, or the default endpoint when that is empty,
  with every trailing slash removed; each of the six numeric fields is the input's, or
  its default when the input's is below the bound of the rule; hence every numeric field
  of the output is positive and the base URL does not end in a slash.
\<close>

theorem normalizeClientConfig_defaults:
  "BaseURL (normalizeClientConfig cfg) =
     TrimRight (if BaseURL cfg = [] then DefaultClientBase else BaseURL cfg) ''/''
   \<and> (\<exists>k. (if BaseURL cfg = [] then DefaultClientBase else BaseURL cfg) =
            BaseURL (normalizeClientConfig cfg) @ replicate k CHR ''/'')
   \<and> \<not> (\<exists>u. BaseURL (normalizeClientConfig cfg) = u @ ''/'')
   \<and> ClientConfig.Duration (normalizeClientConfig cfg) =
       (if sint (ClientConfig.Duration cfg) \<le> 0 then DefaultDuration else ClientConfig.Duration cfg)
   \<and> Streams (normalizeClientConfig cfg) =
       (if sint (Streams cfg) < 1 then DefaultStreams else Streams cfg)
   \<and> ChunkSize (normalizeClientConfig cfg) =
       (if sint (ChunkSize cfg) < 1024 then DefaultChunkSize else ChunkSize cfg)
   \<and> DownloadMB (normalizeClientConfig cfg) =
       (if sint (DownloadMB cfg) < 1 then DefaultDownloadMB else DownloadMB cfg)
   \<and> PingCount (normalizeClientConfig cfg) =
       (if sint (PingCount cfg) < 1 then DefaultPingCount else PingCount cfg)
   \<and> Timeout (normalizeClientConfig cfg) =
       (if sint (Timeout cfg) \<le> 0 then DefaultTimeout else Timeout cfg)
   \<and> JSON (normalizeClientConfig cfg) = JSON cfg
   \<and> Progress (normalizeClientConfig cfg) = Progress cfg
   \<and> 0 < sint (ClientConfig.Duration (normalizeClientConfig cfg))
   \<and> 1 \<le> sint (Streams (normalizeClientConfig cfg))
   \<and> 1024 \<le> sint (ChunkSize (normalizeClientConfig cfg))
   \<and> 1 \<le> sint (DownloadMB (normalizeClientConfig cfg))
   \<and> 1 \<le> sint (PingCount (normalizeClientConfig cfg))
   \<and> 0 < sint (Timeout (normalizeClientConfig cfg))"
proof -
  have url: "BaseURL (normalizeClientConfig cfg) =
     TrimRight (if BaseURL cfg = [] then DefaultClientBase else BaseURL cfg) ''/''"
    by (simp add: normalizeClientConfig_def Let_def)
  have dec: "\<exists>k. (if BaseURL cfg = [] then DefaultClientBase else BaseURL cfg) =
            BaseURL (normalizeClientConfig cfg) @ replicate k CHR ''/''"
    unfolding url by (rule TrimRight_decomp)
  have slash: "\<not> (\<exists>u. BaseURL (normalizeClientConfig cfg) = u @ ''/'')"
    unfolding url using TrimRight_no_trailing [of "CHR ''/''" "''/''"] by simp
  have fields: "ClientConfig.Duration (normalizeClientConfig cfg) =
       (if sint (ClientConfig.Duration cfg) \<le> 0 then DefaultDuration else ClientConfig.Duration cfg)"
    "Streams (normalizeClientConfig cfg) =
       (if sint (Streams cfg) < 1 then DefaultStreams else Streams cfg)"
    "ChunkSize (normalizeClientConfig cfg) =
       (if sint (ChunkSize cfg) < 1024 then DefaultChunkSize else ChunkSize cfg)"
    "DownloadMB (normalizeClientConfig cfg) =
       (if sint (DownloadMB cfg) < 1 then DefaultDownloadMB else DownloadMB cfg)"
    "PingCount (normalizeClientConfig cfg) =
       (if sint (PingCount cfg) < 1 then DefaultPingCount else PingCount cfg)"
    "Timeout (normalizeClientConfig cfg) =
       (if sint (Timeout cfg) \<le> 0 then DefaultTimeout else Timeout cfg)"
    "JSON (normalizeClientConfig cfg) = JSON cfg"
    "Progress (normalizeClientConfig cfg) = Progress cfg"
    by (simp_all add: normalizeClientConfig_def Let_def)
  have pos: "0 < sint (ClientConfig.Duration (normalizeClientConfig cfg))"
    "1 \<le> sint (Streams (normalizeClientConfig cfg))"
    "1024 \<le> sint (ChunkSize (normalizeClientConfig cfg))"
    "1 \<le> sint (DownloadMB (normalizeClientConfig cfg))"
    "1 \<le> sint (PingCount (normalizeClientConfig cfg))"
    "0 < sint (Timeout (normalizeClientConfig cfg))"
    unfolding fields by (simp_all add: default_defs)
  show ?thesis
    using url dec slash fields pos by blast
qed

lemma normalizeClientConfig_example:
  "normalizeClientConfig
     \<lparr>BaseURL = ''http://h:1//'', ClientConfig.Duration = 0, Streams = 0, ChunkSize = 1023,
      DownloadMB = - 3, PingCount = 2, Timeout = 7, JSON = True, Progress = False\<rparr> =
     \<lparr>BaseURL = ''http://h:1'', ClientConfig.Duration = 12000000000, Streams = 1,
      ChunkSize = 65536, DownloadMB = 40, PingCount = 2, Timeout = 7, JSON = True,
      Progress = False\<rparr>"
  by (simp add: normalizeClientConfig_def Let_def TrimRight_def default_defs)

subsection \<open>Rounding to binary64\<close>

lemma bitlen_nat_bounds:
  "0 < n \<Longrightarrow> 2 ^ (bitlen_nat n - 1) \<le> n \<and> n < 2 ^ bitlen_nat n"
proof (induction n rule: bitlen_nat.induct)
  case (1 n)
  show ?case
  proof (cases "n div 2 = 0")
    case True
    with "1.prems" have "n = 1" by presburger
    then show ?thesis by (simp add: bitlen_nat.simps)
  next
    case False
    then have pos: "0 < n div 2" by simp
    from "1.prems" have n0: "n \<noteq> 0" by simp
    from "1.IH" [OF n0 pos]
    have ih: "2 ^ (bitlen_nat (n div 2) - 1) \<le> n div 2" "n div 2 < 2 ^ bitlen_nat (n div 2)"
      by simp_all
    have bl: "bitlen_nat n = Suc (bitlen_nat (n div 2))"
      using n0 by (subst bitlen_nat.simps) simp
    have blpos: "0 < bitlen_nat (n div 2)"
      using pos by (subst bitlen_nat.simps) simp
    then obtain k where k: "bitlen_nat (n div 2) = Suc k"
      by (cases "bitlen_nat (n div 2)") simp_all
    have "2 * 2 ^ k \<le> 2 * (n div 2)" using ih(1) k by simp
    also have "\<dots> \<le> n" by simp
    finally have lo: "2 ^ (bitlen_nat n - 1) \<le> n" using bl k by simp
    have "n < 2 * (n div 2) + 2" by presburger
    also have "\<dots> \<le> 2 * 2 ^ bitlen_nat (n div 2)" using ih(2) by simp
    finally have hi: "n < 2 ^ bitlen_nat n" using bl by simp
    from lo hi show ?thesis by simp
  qed
qed

lemma scale2_powi: "scale2 x k = x * 2 powi k"
  by (simp add: scale2_def power_int_def field_simps)

lemma ilog2_bounds:
  assumes "0 < x"
  shows "2 powi (ilog2 x) \<le> x \<and> x < 2 powi (ilog2 x + 1)"
proof (cases "1 \<le> x")
  case True
  define n where "n = nat \<lfloor>x\<rfloor>"
  have npos: "0 < n" using True by (simp add: n_def)
  have fl: "real n = of_int \<lfloor>x\<rfloor>"
    using True by (simp add: n_def)
  have nx: "real n \<le> x" "x < real n + 1"
    unfolding fl by linarith+
  from bitlen_nat_bounds [OF npos]
  have b: "2 ^ (bitlen_nat n - 1) \<le> n" "n + 1 \<le> 2 ^ bitlen_nat n" by simp_all
  have blpos: "0 < bitlen_nat n" using npos by (subst bitlen_nat.simps) simp
  have e: "ilog2 x = int (bitlen_nat n) - 1"
    using True by (simp add: ilog2_def n_def)
  have e1: "(2::real) powi (ilog2 x) = 2 ^ (bitlen_nat n - 1)"
    using blpos by (simp add: e power_int_def nat_diff_distrib')
  have e2: "(2::real) powi (ilog2 x + 1) = 2 ^ bitlen_nat n"
    by (simp add: e power_int_def)
  have "real (2 ^ (bitlen_nat n - 1)) \<le> real n"
    using b(1) of_nat_le_iff by blast
  then have r1: "(2::real) ^ (bitlen_nat n - 1) \<le> real n" by simp
  have "real (n + 1) \<le> real (2 ^ bitlen_nat n)"
    using b(2) of_nat_le_iff by blast
  then have r2: "real n + 1 \<le> 2 ^ bitlen_nat n" by simp
  have lo: "2 powi (ilog2 x) \<le> x" using r1 nx e1 by linarith
  have hi: "x < 2 powi (ilog2 x + 1)" using r2 nx e2 by linarith
  from lo hi show ?thesis by simp
next
  case False
  then have x1: "x < 1" by simp
  define y where "y = 1 / x"
  have y1: "1 < y" using assms x1 by (simp add: y_def)
  have xy: "x = 1 / y" by (simp add: y_def)
  define n where "n = nat (\<lceil>y\<rceil> - 1)"
  have cy: "2 \<le> \<lceil>y\<rceil>" using y1 by linarith
  have npos: "0 < n" using cy by (simp add: n_def)
  have fl: "real n = of_int \<lceil>y\<rceil> - 1"
    using cy by (simp add: n_def)
  have ny: "real n < y" "y \<le> real n + 1"
    unfolding fl by linarith+
  from bitlen_nat_bounds [OF npos]
  have b: "2 ^ (bitlen_nat n - 1) \<le> n" "n + 1 \<le> 2 ^ bitlen_nat n" by simp_all
  have blpos: "0 < bitlen_nat n" using npos by (subst bitlen_nat.simps) simp
  have e: "ilog2 x = - int (bitlen_nat n)"
    using False by (simp add: ilog2_def n_def y_def)
  have e1: "(2::real) powi (ilog2 x) = 1 / 2 ^ bitlen_nat n"
    by (simp add: e power_int_def field_simps)
  have e2: "(2::real) powi (ilog2 x + 1) = 1 / 2 ^ (bitlen_nat n - 1)"
    using blpos by (simp add: e power_int_def field_simps nat_diff_distrib')
  have "real (2 ^ (bitlen_nat n - 1)) \<le> real n"
    using b(1) of_nat_le_iff by blast
  then have r1: "(2::real) ^ (bitlen_nat n - 1) \<le> real n" by simp
  have "real (n + 1) \<le> real (2 ^ bitlen_nat n)"
    using b(2) of_nat_le_iff by blast
  then have r2: "real n + 1 \<le> 2 ^ bitlen_nat n" by simp
  have y2: "y \<le> 2 ^ bitlen_nat n" using r2 ny by linarith
  have y3: "2 ^ (bitlen_nat n - 1) < y" using r1 ny by linarith
  have "1 / 2 ^ bitlen_nat n \<le> 1 / y"
    using y1 y2 by (intro frac_le) simp_all
  then have lo: "2 powi (ilog2 x) \<le> x" using e1 xy by simp
  have "1 / y < 1 / 2 ^ (bitlen_nat n - 1)"
    using y3 by (intro frac_less2) simp_all
  then have hi: "x < 2 powi (ilog2 x + 1)" using e2 xy by simp
  from lo hi show ?thesis by simp
qed


lemma round_even_le: "q \<le> of_int N \<Longrightarrow> round_even q \<le> N"
  unfolding round_even_def Let_def by (auto; linarith)

lemma round_even_ge: "of_int N \<le> q \<Longrightarrow> N \<le> round_even q"
  unfolding round_even_def Let_def by (auto; linarith)

lemma round_even_of_int: "round_even (of_int N) = N"
  unfolding round_even_def Let_def by simp

lemma round_even_err: "\<bar>of_int (round_even q) - q\<bar> \<le> 1 / 2"
  unfolding round_even_def Let_def by (auto; linarith)

lemma round_pos_alt:
  "round_pos x =
     (if 1024 \<le> ilog2 x \<or> (1023 \<le> ilog2 x \<and> 2 ^ 53 \<le> round_even (x * 2 powi (- ulp_exp x)))
      then PInf
      else Fin (of_int (round_even (x * 2 powi (- ulp_exp x))) * 2 powi (ulp_exp x)))"
  by (simp add: round_pos_def Let_def scale2_powi)

lemma ilog2_mono:
  assumes "0 < x" "x \<le> c"
  shows "ilog2 x \<le> ilog2 c"
proof -
  have c: "0 < c" using assms by simp
  have "2 powi (ilog2 x) \<le> x" using ilog2_bounds [OF assms(1)] by simp
  also have "x \<le> c" by fact
  also have "c < 2 powi (ilog2 c + 1)" using ilog2_bounds [OF c] by simp
  finally have "(2::real) powi (ilog2 x) < 2 powi (ilog2 c + 1)" .
  moreover have "(2::real) powi (ilog2 c + 1) \<le> 2 powi (ilog2 x)" if "ilog2 c + 1 \<le> ilog2 x"
    using that by (intro power_int_increasing) simp_all
  ultimately have "ilog2 x < ilog2 c + 1" by force
  then show ?thesis by simp
qed

lemma powi_split: "(2::real) powi (a + b) = 2 powi a * 2 powi b"
  by (simp add: power_int_add)

lemma round_pos_le:
  assumes x: "0 < x" and xc: "x \<le> c" and rc: "round_pos c = Fin c"
  shows "\<exists>y. round_pos x = Fin y \<and> 0 \<le> y \<and> y \<le> c"
proof -
  define ex where "ex = ulp_exp x"
  define ec where "ec = ulp_exp c"
  define mc where "mc = round_even (c * 2 powi (- ec))"
  define m where "m = round_even (x * 2 powi (- ex))"
  have il: "ilog2 x \<le> ilog2 c" using ilog2_mono [OF x xc] .
  then have ee: "ex \<le> ec" by (simp add: ex_def ec_def ulp_exp_def)
  from rc have noc: "\<not> (1024 \<le> ilog2 c \<or> (1023 \<le> ilog2 c \<and> 2 ^ 53 \<le> mc))"
    and cval: "c = of_int mc * 2 powi ec"
    unfolding round_pos_alt mc_def ec_def by (auto split: if_splits)
  define N where "N = mc * 2 ^ nat (ec - ex)"
  have "(2::real) powi ec = 2 powi (ec - ex) * 2 powi ex"
    using powi_split [of "ec - ex" ex] by simp
  also have "(2::real) powi (ec - ex) = 2 ^ nat (ec - ex)"
    using ee by (simp add: power_int_def)
  finally have cN: "c = of_int N * 2 powi ex"
    using cval by (simp add: N_def)
  have pe: "(2::real) powi ex * 2 powi (- ex) = 1"
    using powi_split [of ex "- ex"] by simp
  have "x * 2 powi (- ex) \<le> c * 2 powi (- ex)"
    using xc by (simp add: mult_right_mono)
  also have "\<dots> = of_int N * (2 powi ex * 2 powi (- ex))"
    by (simp add: cN mult.assoc)
  also have "\<dots> = of_int N" by (simp add: pe)
  finally have mN: "m \<le> N" unfolding m_def by (rule round_even_le)
  have "of_int 0 \<le> x * 2 powi (- ex)" using x by simp
  then have m0: "0 \<le> m" unfolding m_def by (rule round_even_ge)
  have nox: "\<not> (1024 \<le> ilog2 x \<or> (1023 \<le> ilog2 x \<and> 2 ^ 53 \<le> m))"
  proof
    assume a: "1024 \<le> ilog2 x \<or> (1023 \<le> ilog2 x \<and> 2 ^ 53 \<le> m)"
    with il noc have i: "ilog2 x = 1023" "ilog2 c = 1023" "2 ^ 53 \<le> m" "mc < 2 ^ 53"
      by auto
    then have "ex = ec" by (simp add: ex_def ec_def ulp_exp_def)
    then have "N = mc" by (simp add: N_def)
    with mN i show False by simp
  qed
  have val: "round_pos x = Fin (of_int m * 2 powi ex)"
    using nox unfolding round_pos_alt m_def ex_def by auto
  have "of_int m * (2::real) powi ex \<le> of_int N * 2 powi ex"
    using mN by (intro mult_right_mono) simp_all
  then have "of_int m * 2 powi ex \<le> c" using cN by simp
  moreover have "0 \<le> of_int m * (2::real) powi ex" using m0 by simp
  ultimately show ?thesis using val by blast
qed

lemma round_pos_ge:
  assumes c: "0 < c" and cx: "c \<le> x" and rc: "round_pos c = Fin c"
  shows "round_pos x = PInf \<or> (\<exists>y. round_pos x = Fin y \<and> c \<le> y)"
proof -
  have x: "0 < x" using c cx by simp
  define ex where "ex = ulp_exp x"
  define ec where "ec = ulp_exp c"
  define mc where "mc = round_even (c * 2 powi (- ec))"
  define m where "m = round_even (x * 2 powi (- ex))"
  have il: "ilog2 c \<le> ilog2 x" using ilog2_mono [OF c cx] .
  from rc have cval: "c = of_int mc * 2 powi ec"
    unfolding round_pos_alt mc_def ec_def by (auto split: if_splits)
  have pe: "(2::real) powi ex * 2 powi (- ex) = 1"
    using powi_split [of ex "- ex"] by simp
  have alt: "round_pos x = PInf \<or> round_pos x = Fin (of_int m * 2 powi ex)"
    unfolding round_pos_alt m_def ex_def by auto
  have "c \<le> of_int m * 2 powi ex"
  proof (cases "ex = ec")
    case True
    have "of_int mc = of_int mc * ((2::real) powi ex * 2 powi (- ex))" by (simp add: pe)
    also have "\<dots> = c * 2 powi (- ex)" using cval True by (simp add: mult.assoc)
    also have "\<dots> \<le> x * 2 powi (- ex)" using cx by (simp add: mult_right_mono)
    finally have "mc \<le> m" unfolding m_def by (rule round_even_ge)
    then have "of_int mc * (2::real) powi ex \<le> of_int m * 2 powi ex"
      by (intro mult_right_mono) simp_all
    then show ?thesis using cval True by simp
  next
    case False
    with il have lt: "ilog2 c < ilog2 x" and n: "- 1022 < ilog2 x"
      by (auto simp: ex_def ec_def ulp_exp_def max_def split: if_splits)
    then have exv: "ex = ilog2 x - 52" by (simp add: ex_def ulp_exp_def)
    have "(2::real) powi (ilog2 x) * 2 powi (- ex) = 2 powi 52"
      using powi_split [of "ilog2 x" "- ex"] by (simp add: exv)
    then have "(2::real) powi (ilog2 x) * 2 powi (- ex) = of_int (2 ^ 52)"
      by (simp add: power_int_def)
    moreover have "2 powi (ilog2 x) * 2 powi (- ex) \<le> x * 2 powi (- ex)"
      using ilog2_bounds [OF x] by (simp add: mult_right_mono)
    ultimately have "of_int (2 ^ 52) \<le> x * 2 powi (- ex)" by simp
    then have "2 ^ 52 \<le> m" unfolding m_def by (rule round_even_ge)
    then have "of_int (2 ^ 52) * (2::real) powi ex \<le> of_int m * 2 powi ex"
      by (intro mult_right_mono) simp_all
    moreover have "of_int (2 ^ 52) * (2::real) powi ex = 2 powi (ilog2 x)"
      using powi_split [of 52 ex] by (simp add: exv power_int_def)
    moreover have "c < 2 powi (ilog2 c + 1)" using ilog2_bounds [OF c] by simp
    moreover have "(2::real) powi (ilog2 c + 1) \<le> 2 powi (ilog2 x)"
      using lt by (intro power_int_increasing) simp_all
    ultimately show ?thesis by linarith
  qed
  with alt show ?thesis by blast
qed

lemmas round_eval =
  round_f64_def round_pos_def round_even_def ilog2_def ulp_exp_def scale2_def Let_def
  bitlen_nat.simps

lemma representable_consts:
  "round_f64 0 = Fin 0" "round_f64 1 = Fin 1" "round_f64 8 = Fin 8" "round_f64 100 = Fin 100"
  "round_f64 1000000 = Fin 1000000" "round_f64 1000000000 = Fin 1000000000"
  "round_f64 (2 ^ 63) = Fin (2 ^ 63)" "round_f64 (- (2 ^ 63)) = Fin (- (2 ^ 63))"
  by (simp_all add: round_eval)

lemma round_pos_cases:
  "round_pos x = PInf \<or> (\<exists>y. round_pos x = Fin y)"
  by (simp add: round_pos_def Let_def)

lemma round_pos_nonneg:
  assumes "0 < x"
  shows "round_pos x = PInf \<or> (\<exists>y. round_pos x = Fin y \<and> 0 \<le> y)"
proof -
  have "of_int 0 \<le> x * 2 powi (- ulp_exp x)" using assms by simp
  then have "0 \<le> round_even (x * 2 powi (- ulp_exp x))" by (rule round_even_ge)
  then have "0 \<le> of_int (round_even (x * 2 powi (- ulp_exp x))) * (2::real) powi (ulp_exp x)"
    by simp
  then show ?thesis unfolding round_pos_alt by auto
qed

lemma round_f64_not_NaN: "round_f64 x \<noteq> NaN"
  using round_pos_cases [of x] round_pos_cases [of "- x"]
  by (auto simp: round_f64_def)

lemma round_f64_le:
  assumes xc: "x \<le> c" and rc: "round_f64 c = Fin c"
  shows "f64_le (round_f64 x) (Fin c)"
proof -
  consider "x = 0" | "0 < x" | "x < 0" "0 \<le> c" | "x < 0" "c < 0" by linarith
  then show ?thesis
  proof cases
    case 1
    with xc show ?thesis by (auto simp: round_f64_def f64_le_def)
  next
    case 2
    with xc rc have "round_pos c = Fin c" by (simp add: round_f64_def split: if_splits)
    from round_pos_le [OF 2 xc this] 2 show ?thesis
      by (auto simp: round_f64_def f64_le_def)
  next
    case 3
    then have "0 < - x" by simp
    from round_pos_nonneg [OF this] 3 show ?thesis
      by (auto simp: round_f64_def f64_le_def)
  next
    case 4
    then have p: "0 < - c" "- c \<le> - x" using xc by simp_all
    from rc 4 have "f64_neg (round_pos (- c)) = Fin c" by (simp add: round_f64_def)
    then have "round_pos (- c) = Fin (- c)"
      by (cases "round_pos (- c)") simp_all
    from round_pos_ge [OF p this] 4 show ?thesis
      by (auto simp: round_f64_def f64_le_def)
  qed
qed

lemma round_f64_neg: "round_f64 (- x) = f64_neg (round_f64 x)"
proof -
  have "f64_neg (f64_neg a) = a" for a by (cases a) simp_all
  then show ?thesis by (simp add: round_f64_def)
qed

lemma f64_le_neg: "f64_le (f64_neg a) (Fin (- c)) = f64_le (Fin c) a"
  by (cases a) (auto simp: f64_le_def)

lemma round_f64_ge:
  assumes cx: "c \<le> x" and rc: "round_f64 c = Fin c"
  shows "f64_le (Fin c) (round_f64 x)"
proof -
  have "round_f64 (- c) = Fin (- c)" by (simp add: round_f64_neg rc)
  moreover have "- x \<le> - c" using cx by simp
  ultimately have "f64_le (round_f64 (- x)) (Fin (- c))" by (rule round_f64_le [rotated])
  then show ?thesis by (simp add: round_f64_neg f64_le_neg)
qed

lemma f64_le_Fin [simp]: "f64_le (Fin a) (Fin b) = (a \<le> b)"
  by (auto simp: f64_le_def)

lemma f64_between:
  assumes "f64_le (Fin a) r" "f64_le r (Fin b)"
  shows "\<exists>y. r = Fin y \<and> a \<le> y \<and> y \<le> b"
  using assms by (cases r) (auto simp: f64_le_def)

lemma round_f64_between:
  assumes "a \<le> x" "x \<le> b" "round_f64 a = Fin a" "round_f64 b = Fin b"
  shows "\<exists>y. round_f64 x = Fin y \<and> a \<le> y \<and> y \<le> b"
  using assms by (intro f64_between round_f64_le round_f64_ge)

lemma real_sint_bounds:
  "- (2 ^ 63) \<le> real_of_int (sint (n :: int64))" "real_of_int (sint n) \<le> 2 ^ 63"
proof -
  have "- (2 ^ 63) \<le> sint n" "sint n \<le> 2 ^ 63"
    using sint_ge [of n] sint_lt [of n] by simp_all
  then have "real_of_int (- (2 ^ 63)) \<le> real_of_int (sint n)"
    "real_of_int (sint n) \<le> real_of_int (2 ^ 63)"
    by (simp_all only: of_int_le_iff)
  then show "- (2 ^ 63) \<le> real_of_int (sint n)" "real_of_int (sint n) \<le> 2 ^ 63"
    by (simp_all del: of_int_sint)
qed

lemma float64_finite:
  "\<exists>y. float64 n = Fin y \<and> - (2 ^ 63) \<le> y \<and> y \<le> 2 ^ 63"
  unfolding float64_def by (intro round_f64_between representable_consts real_sint_bounds)

lemma float64_nonneg:
  assumes "0 \<le> sint n"
  shows "\<exists>y. float64 n = Fin y \<and> 0 \<le> y"
proof -
  from float64_finite [of n] obtain y where y: "float64 n = Fin y" by blast
  have "0 \<le> real_of_int (sint n)" using assms by (simp only: of_int_0_le_iff)
  then have "f64_le (Fin 0) (float64 n)"
    unfolding float64_def by (intro round_f64_ge representable_consts)
  with y show ?thesis by simp
qed

lemma float64_pos:
  assumes "0 < sint n"
  shows "\<exists>y. float64 n = Fin y \<and> 1 \<le> y"
proof -
  from float64_finite [of n] obtain y where y: "float64 n = Fin y" by blast
  from assms have "1 \<le> sint n" by simp
  then have "real_of_int 1 \<le> real_of_int (sint n)" by (simp only: of_int_le_iff)
  then have "1 \<le> real_of_int (sint n)" by (simp del: of_int_sint)
  then have "f64_le (Fin 1) (float64 n)"
    unfolding float64_def by (intro round_f64_ge representable_consts)
  with y show ?thesis by simp
qed

subsection \<open>The statistics and the progress reporter\<close>

lemma sint_word_of_int_id:
  assumes "- (2 ^ 63) \<le> k" "k < 2 ^ 63"
  shows "sint (word_of_int k :: int64) = k"
  using assms by (simp add: sint_sbintrunc' signed_take_bit_int_eq_self)

lemmas go_eval =
  go_div_def go_mod_def signed_divide_int_def signed_modulo_int_def Second_def Millisecond_def
  makeslice_def maxAlloc_def example_memory_def

lemmas f64_eval =
  float64_def float64_len_def f64_mul_def f64_div_def f64_add_def f64_le_def Seconds_def
  Milliseconds_def int_of_f64_def

lemma bytesToMbps_scenario: "bytesToMbps 2000000 Second = Fin 16"
  by (simp add: bytesToMbps_def f64_eval go_eval round_eval)

lemma float64_len_finite:
  assumes "n < 2 ^ 63"
  shows "\<exists>a. float64_len n = Fin a \<and> 0 \<le> a \<and> a \<le> 2 ^ 63"
proof -
  have "n \<le> 2 ^ 63" using assms by simp
  then have "real n \<le> real (2 ^ 63)" by (rule of_nat_mono)
  then have "real n \<le> 2 ^ 63" by simp
  moreover have "0 \<le> real n" by simp
  ultimately show ?thesis
    unfolding float64_len_def by (intro round_f64_between representable_consts)
qed

lemma clamp_index:
  fixes n k :: int
  assumes "0 < n"
  shows "(let index = max k 0;
              index = (if n \<le> index then n - 1 else index)
          in index) = max 0 (min (n - 1) k)"
  using assms by (auto simp: Let_def max_def min_def)

lemma sint_index_of_ceil:
  assumes x: "0 \<le> x" "x \<le> 2 ^ 63"
  shows "sint (int_of_f64 (f64_ceil (Fin x)) - 1) = min (2 ^ 63 - 1) (\<lceil>x\<rceil> - 1)"
proof -
  have c0: "0 \<le> \<lceil>x\<rceil>" using x by linarith
  have c1: "\<lceil>x\<rceil> \<le> 2 ^ 63" using x by (simp add: ceiling_le_iff)
  show ?thesis
  proof (cases "\<lceil>x\<rceil> < 2 ^ 63")
    case True
    have "int_of_f64 (f64_ceil (Fin x)) = word_of_int \<lceil>x\<rceil>"
      using c0 True by (simp add: int_of_f64_def)
    then have "int_of_f64 (f64_ceil (Fin x)) - 1 = word_of_int (\<lceil>x\<rceil> - 1)"
      by simp
    moreover have "sint (word_of_int (\<lceil>x\<rceil> - 1) :: int64) = \<lceil>x\<rceil> - 1"
      using c0 True by (intro sint_word_of_int_id) linarith+
    ultimately have "sint (int_of_f64 (f64_ceil (Fin x)) - 1) = \<lceil>x\<rceil> - 1"
      by (simp only:)
    with True show ?thesis by linarith
  next
    case False
    with c1 have top: "\<lceil>x\<rceil> = 2 ^ 63" by linarith
    have "int_of_f64 (f64_ceil (Fin x)) = - (2 ^ 63)"
      using c0 by (simp add: int_of_f64_def top)
    then have "int_of_f64 (f64_ceil (Fin x)) - 1 = word_of_int (2 ^ 63 - 1)"
      by simp
    moreover have "sint (word_of_int (2 ^ 63 - 1) :: int64) = 2 ^ 63 - 1"
      by (intro sint_word_of_int_id) simp_all
    ultimately have "sint (int_of_f64 (f64_ceil (Fin x)) - 1) = 2 ^ 63 - 1"
      by (simp only:)
    with top show ?thesis by linarith
  qed
qed

lemma index_of_ceil:
  assumes x: "0 \<le> x" "x \<le> 2 ^ 63" and n: "0 < n" "n < 2 ^ 63"
  shows "(let index = sint (int_of_f64 (f64_ceil (Fin x)) - 1);
              index = max index 0;
              index = (if int n \<le> index then int n - 1 else index)
          in index) = max 0 (min (int n - 1) (\<lceil>x\<rceil> - 1))"
proof -
  have n': "0 < int n" "int n - 1 \<le> 2 ^ 63 - 1"
    using n by simp_all
  have "(let index = sint (int_of_f64 (f64_ceil (Fin x)) - 1);
              index = max index 0;
              index = (if int n \<le> index then int n - 1 else index)
          in index) =
        (let index = max (min (2 ^ 63 - 1) (\<lceil>x\<rceil> - 1)) 0;
              index = (if int n \<le> index then int n - 1 else index)
          in index)"
    by (simp only: sint_index_of_ceil [OF x] Let_def)
  also have "\<dots> = max 0 (min (int n - 1) (min (2 ^ 63 - 1) (\<lceil>x\<rceil> - 1)))"
    using n'(1) by (rule clamp_index)
  also have "\<dots> = max 0 (min (int n - 1) (\<lceil>x\<rceil> - 1))"
    using n'(2) by linarith
  finally show ?thesis .
qed

text \<open>
  Claim C4. For a non-empty sequence (of a length a Go slice can have) and a
  percentile \<open>p\<close>: the result is the first element when \<open>p \<le> 0\<close>, the last when
  \<open>1 \<le> p\<close>, and for \<open>0 < p < 1\<close> the element at index \<open>ceil(|S| * p) - 1\<close> clamped into
  \<open>[0, |S| - 1]\<close>, where \<open>|S| * p\<close> is the \<open>float64\<close> product the code computes (it is
  finite). The sequence need not be sorted for this.
\<close>

theorem percentileDuration_index:
  assumes "items \<noteq> []" and "length items < 2 ^ 63"
  shows "(f64_le p (Fin 0) \<longrightarrow> percentileDuration items p = items ! 0)
   \<and> (f64_le (Fin 1) p \<longrightarrow> percentileDuration items p = last items)
   \<and> (f64_lt (Fin 0) p \<and> f64_lt p (Fin 1) \<longrightarrow>
        (\<exists>x. f64_mul (float64_len (length items)) p = Fin x \<and>
             percentileDuration items p =
               items ! nat (max 0 (min (int (length items) - 1) (\<lceil>x\<rceil> - 1)))))"
proof (intro conjI impI)
  assume "f64_le p (Fin 0)"
  then show "percentileDuration items p = items ! 0"
    using assms by (simp add: percentileDuration_def)
next
  assume a: "f64_le (Fin 1) p"
  then have "\<not> f64_le p (Fin 0)"
    by (cases p) (auto simp: f64_le_def)
  with a show "percentileDuration items p = last items"
    using assms by (simp add: percentileDuration_def last_conv_nth)
next
  assume a: "f64_lt (Fin 0) p \<and> f64_lt p (Fin 1)"
  then obtain y where p: "p = Fin y" and y: "0 < y" "y < 1"
    by (cases p) auto
  from float64_len_finite [OF assms(2)]
  obtain a where fa: "float64_len (length items) = Fin a" and a: "0 \<le> a" "a \<le> 2 ^ 63"
    by blast
  have "0 \<le> a * y" using a y by simp
  moreover have "a * y \<le> a * 1" using a y by (intro mult_left_mono) simp_all
  then have "a * y \<le> 2 ^ 63" using a by simp
  ultimately obtain x where rx: "round_f64 (a * y) = Fin x" and x: "0 \<le> x" "x \<le> 2 ^ 63"
    using round_f64_between [of 0 "a * y" "2 ^ 63"] representable_consts by blast
  have prod: "f64_mul (float64_len (length items)) (Fin y) = Fin x"
    by (simp add: fa f64_mul_def rx)
  have n: "0 < length items" using assms by simp
  have "percentileDuration items p =
      items ! nat (let index = sint (int_of_f64 (f64_ceil (Fin x)) - 1);
              index = max index 0;
              index = (if int (length items) \<le> index then int (length items) - 1 else index)
          in index)"
    using assms y by (simp add: percentileDuration_def prod p Let_def)
  also have "\<dots> = items ! nat (max 0 (min (int (length items) - 1) (\<lceil>x\<rceil> - 1)))"
    by (simp only: index_of_ceil [OF x n assms(2)])
  finally show "\<exists>x. f64_mul (float64_len (length items)) p = Fin x \<and>
             percentileDuration items p =
               items ! nat (max 0 (min (int (length items) - 1) (\<lceil>x\<rceil> - 1)))"
    using prod p by blast
qed

theorem percentileDuration_index_witness:
  "[10000000, 20000000, 30000000 :: int64] \<noteq> []
   \<and> length [10000000, 20000000, 30000000 :: int64] < 2 ^ 63
   \<and> f64_le (Fin (- 1)) (Fin 0)
   \<and> percentileDuration [10000000, 20000000, 30000000] (Fin (- 1)) = 10000000
   \<and> f64_le (Fin 1) PInf
   \<and> percentileDuration [10000000, 20000000, 30000000] PInf = 30000000
   \<and> f64_lt (Fin 0) (Fin (1 / 2)) \<and> f64_lt (Fin (1 / 2)) (Fin 1)
   \<and> f64_mul (float64_len 3) (Fin (1 / 2)) = Fin (3 / 2)
   \<and> percentileDuration [10000000, 20000000, 30000000] (Fin (1 / 2)) = 20000000"
  using percentileDuration_index [of "[10000000, 20000000, 30000000]" "Fin (- 1)"]
    percentileDuration_index [of "[10000000, 20000000, 30000000]" PInf]
    percentileDuration_index [of "[10000000, 20000000, 30000000]" "Fin (1 / 2)"]
  by (simp add: percentileDuration_def f64_eval round_eval)

lemma percentileDuration_p95_scenario:
  "round_f64 (95 / 100) = Fin (4278419646001971 / 2 ^ 52)
   \<and> percentileDuration [10000000, 20000000, 30000000] (round_f64 (95 / 100)) = 30000000"
  by (simp add: percentileDuration_def f64_eval round_eval)


lemma clamp_low:
  "a \<noteq> NaN \<Longrightarrow> f64_le (Fin 0) (if f64_lt a (Fin 0) then Fin 0 else a)"
  by (cases a) (auto simp: f64_le_def)

lemma clamp_percent:
  "a \<noteq> NaN \<Longrightarrow>
    f64_le (Fin 0)
      (let p = (if f64_lt a (Fin 0) then Fin 0 else a)
       in if f64_lt (Fin 100) p then Fin 100 else p) \<and>
    f64_le
      (let p = (if f64_lt a (Fin 0) then Fin 0 else a)
       in if f64_lt (Fin 100) p then Fin 100 else p) (Fin 100)"
  by (cases a) (auto simp: f64_le_def Let_def)

subsection \<open>The counter and the error slot under every schedule\<close>

lemma sum_list_map_update:
  fixes f :: "'a \<Rightarrow> int64"
  assumes "i < length xs"
  shows "sum_list (map f (xs[i := y])) + f (xs ! i) = sum_list (map f xs) + f y"
  using assms
proof (induction xs arbitrary: i)
  case Nil
  then show ?case by simp
next
  case (Cons x xs)
  then show ?case by (cases i) (simp_all add: algebra_simps)
qed

lemma totalBytes_perform: "totalBytes (perform a s) = totalBytes s + added a"
  by (cases a) (simp_all add: setRunErr_def)

lemma totalBytes_fold_perform:
  "totalBytes (fold perform as s) = totalBytes s + sum_list (map added as)"
  by (induction as arbitrary: s) (simp_all add: totalBytes_perform algebra_simps)

lemma totalBytes_fold_workers:
  "totalBytes (fold (\<lambda>w. fold perform w) ws s) = totalBytes s + added_all ws"
  by (induction ws arbitrary: s) (simp_all add: totalBytes_fold_perform added_all_def algebra_simps)

lemma added_all_step:
  assumes "i < length ws" "ws ! i \<noteq> []"
  shows "added_all (ws[i := tl (ws ! i)]) + added (hd (ws ! i)) = added_all ws"
proof -
  from assms(2) obtain a as where w: "ws ! i = a # as" by (cases "ws ! i") simp_all
  have "added_all (ws[i := as]) + sum_list (map added (ws ! i)) =
        added_all ws + sum_list (map added as)"
    unfolding added_all_def using assms(1) by (rule sum_list_map_update)
  then show ?thesis by (simp add: w)
qed

lemma totalBytes_run_workers:
  "totalBytes (run_workers sample sched ws s) = totalBytes s + added_all ws"
proof (induction sample sched ws s rule: run_workers.induct)
  case (1 sample ws s)
  then show ?case by (simp add: totalBytes_fold_workers)
next
  case (2 sample i sched ws s)
  show ?case
  proof (cases "i < length ws \<and> ws ! i \<noteq> []")
    case True
    then have "totalBytes (run_workers sample (Step i # sched) ws s) =
        totalBytes s + added (hd (ws ! i)) + added_all (ws[i := tl (ws ! i)])"
      using "2.IH"(1) by (simp add: totalBytes_perform)
    also have "\<dots> = totalBytes s + added_all ws"
      using added_all_step [of i ws] True by (simp add: algebra_simps)
    finally show ?thesis .
  next
    case False
    then show ?thesis using "2.IH"(2) by auto
  qed
next
  case (3 sample d sched ws s)
  then show ?case by simp
qed


lemma set_concat_update_tl:
  assumes "i < length ws"
  shows "set (concat (ws[i := tl (ws ! i)])) \<subseteq> set (concat ws)"
proof
  fix a assume "a \<in> set (concat (ws[i := tl (ws ! i)]))"
  then obtain w where w: "w \<in> set (ws[i := tl (ws ! i)])" "a \<in> set w" by auto
  have "set (ws[i := tl (ws ! i)]) \<subseteq> insert (tl (ws ! i)) (set ws)"
    by (rule set_update_subset_insert)
  with w(1) have "w = tl (ws ! i) \<or> w \<in> set ws" by auto
  then show "a \<in> set (concat ws)"
  proof
    assume e: "w = tl (ws ! i)"
    have "set (tl (ws ! i)) \<subseteq> set (ws ! i)"
      by (cases "ws ! i") auto
    with w(2) e have "a \<in> set (ws ! i)" by auto
    moreover have "ws ! i \<in> set ws" using assms by simp
    ultimately show ?thesis by auto
  next
    assume "w \<in> set ws"
    with w(2) show ?thesis by auto
  qed
qed

lemma hd_in_concat:
  assumes "i < length ws" "ws ! i \<noteq> []"
  shows "hd (ws ! i) \<in> set (concat ws)"
proof -
  have "hd (ws ! i) \<in> set (ws ! i)" using assms(2) by simp
  moreover have "ws ! i \<in> set ws" using assms(1) by simp
  ultimately show ?thesis by auto
qed

lemma fold_perform_invariant:
  assumes "P s" and "\<And>a s. a \<in> set as \<Longrightarrow> P s \<Longrightarrow> P (perform a s)"
  shows "P (fold perform as s)"
  using assms by (induction as arbitrary: s) simp_all

lemma fold_workers_invariant:
  assumes "P s" and "\<And>a s. a \<in> set (concat ws) \<Longrightarrow> P s \<Longrightarrow> P (perform a s)"
  shows "P (fold (\<lambda>w. fold perform w) ws s)"
  using assms
proof (induction ws arbitrary: s)
  case Nil
  then show ?case by simp
next
  case (Cons w ws)
  have "P (fold perform w s)"
  proof (rule fold_perform_invariant [where P = P])
    show "P s" by (rule Cons.prems(1))
    show "P (perform a s)" if "a \<in> set w" "P s" for a s
      using that Cons.prems(2) [of a s] by simp
  qed
  moreover have "P (perform a s)" if "a \<in> set (concat ws)" "P s" for a s
    using that Cons.prems(2) [of a s] by simp
  ultimately have "P (fold (\<lambda>w. fold perform w) ws (fold perform w s))"
    by (rule Cons.IH)
  then show ?case by simp
qed

lemma run_workers_invariant:
  assumes "P s"
    and "\<And>a s. a \<in> set (concat ws) \<Longrightarrow> P s \<Longrightarrow> P (perform a s)"
    and "\<And>d s. P s \<Longrightarrow> P (s\<lparr>effects := effects s @ sample (totalBytes s) d\<rparr>)"
  shows "P (run_workers sample sched ws s)"
  using assms
proof (induction sample sched ws s rule: run_workers.induct)
  case (1 sample ws s)
  have "P (fold (\<lambda>w. fold perform w) ws s)"
    using "1.prems"(1,2) by (rule fold_workers_invariant [where P = P])
  then show ?case by simp
next
  case (2 sample i sched ws s)
  show ?case
  proof (cases "i < length ws \<and> ws ! i \<noteq> []")
    case True
    have "hd (ws ! i) \<in> set (concat ws)"
      using True by (intro hd_in_concat) simp_all
    then have a: "P (perform (hd (ws ! i)) s)"
      using "2.prems"(1) by (rule "2.prems"(2))
    have sub: "set (concat (ws[i := tl (ws ! i)])) \<subseteq> set (concat ws)"
      using True by (intro set_concat_update_tl) simp
    have b: "P (perform a s)" if "a \<in> set (concat (ws[i := tl (ws ! i)]))" "P s" for a s
      using that sub "2.prems"(2) [of a s] by (simp only: subset_iff)
    have "P (run_workers sample sched (ws[i := tl (ws ! i)]) (perform (hd (ws ! i)) s))"
      using True a b "2.prems"(3) by (rule "2.IH"(1))
    with True show ?thesis by simp
  next
    case False
    have "P (run_workers sample sched ws s)"
      using False "2.prems" by (rule "2.IH"(2))
    with False show ?thesis by auto
  qed
next
  case (3 sample d sched ws s)
  have "P (s\<lparr>effects := effects s @ sample (totalBytes s) d\<rparr>)"
    using "3.prems"(1) by (rule "3.prems"(3))
  then have "P (run_workers sample sched ws (s\<lparr>effects := effects s @ sample (totalBytes s) d\<rparr>))"
    using "3.prems"(2,3) by (rule "3.IH")
  then show ?case by simp
qed


lemma in_map_filter: "y \<in> set (List.map_filter f xs) \<longleftrightarrow> (\<exists>x \<in> set xs. f x = Some y)"
  by (induction xs) (auto simp: map_filter_simps split: option.splits)

lemma map_filter_empty: "List.map_filter f xs = [] \<longleftrightarrow> (\<forall>x \<in> set xs. f x = None)"
  by (induction xs) (auto simp: map_filter_simps split: option.splits)

lemma raised_all_iff: "e \<in> set (raised_all ws) \<longleftrightarrow> (\<exists>a \<in> set (concat ws). raised a = Some e)"
  unfolding raised_all_def by (rule in_map_filter)

lemma raised_all_empty: "raised_all ws = [] \<longleftrightarrow> (\<forall>a \<in> set (concat ws). raised a = None)"
  unfolding raised_all_def by (rule map_filter_empty)

lemma slot_perform:
  "runErr (perform a s) =
     (if errOnce s then runErr s else case raised a of None \<Rightarrow> runErr s | Some e \<Rightarrow> Some e)"
  "errOnce (perform a s) = (errOnce s \<or> raised a \<noteq> None)"
  by (cases a; auto simp: setRunErr_def)+

lemma runErr_none_raised:
  assumes "runErr s = None" "\<not> errOnce s" "raised_all ws = []"
  shows "runErr (run_workers sample sched ws s) = None"
proof -
  have "runErr (run_workers sample sched ws s) = None \<and> \<not> errOnce (run_workers sample sched ws s)"
  proof (rule run_workers_invariant [where P = "\<lambda>s. runErr s = None \<and> \<not> errOnce s"])
    show "runErr s = None \<and> \<not> errOnce s" using assms by simp
    show "runErr (perform a s) = None \<and> \<not> errOnce (perform a s)"
      if "a \<in> set (concat ws)" "runErr s = None \<and> \<not> errOnce s" for a s
    proof -
      from assms(3) have "\<forall>a \<in> set (concat ws). raised a = None"
        by (simp only: raised_all_empty)
      with that(1) have "raised a = None" by blast
      with that(2) show ?thesis by (simp add: slot_perform)
    qed
    show "runErr (s\<lparr>effects := effects s @ sample (totalBytes s) d\<rparr>) = None \<and>
          \<not> errOnce (s\<lparr>effects := effects s @ sample (totalBytes s) d\<rparr>)"
      if "runErr s = None \<and> \<not> errOnce s" for d s
      using that by simp
  qed
  then show ?thesis by simp
qed

lemma runErr_among_raised:
  assumes "runErr s = None"
  shows "runErr (run_workers sample sched ws s) = None \<or>
         (\<exists>e \<in> set (raised_all ws). runErr (run_workers sample sched ws s) = Some e)"
proof (rule run_workers_invariant
    [where P = "\<lambda>s. runErr s = None \<or> (\<exists>e \<in> set (raised_all ws). runErr s = Some e)"])
  show "runErr s = None \<or> (\<exists>e \<in> set (raised_all ws). runErr s = Some e)"
    using assms by simp
  show "runErr (perform a s) = None \<or> (\<exists>e \<in> set (raised_all ws). runErr (perform a s) = Some e)"
    if "a \<in> set (concat ws)"
      "runErr s = None \<or> (\<exists>e \<in> set (raised_all ws). runErr s = Some e)" for a s
  proof (cases "raised a")
    case None
    with that(2) show ?thesis by (simp add: slot_perform)
  next
    case (Some e)
    with that(1) have "\<exists>a \<in> set (concat ws). raised a = Some e" by blast
    then have "e \<in> set (raised_all ws)" by (simp only: raised_all_iff)
    with that(2) Some show ?thesis by (auto simp: slot_perform)
  qed
  show "runErr (s\<lparr>effects := effects s @ sample (totalBytes s) d\<rparr>) = None \<or>
        (\<exists>e \<in> set (raised_all ws).
           runErr (s\<lparr>effects := effects s @ sample (totalBytes s) d\<rparr>) = Some e)"
    if "runErr s = None \<or> (\<exists>e \<in> set (raised_all ws). runErr s = Some e)" for d s
    using that by simp
qed

lemma fired_perform: "fired s \<Longrightarrow> fired (perform a s)"
  by (simp add: fired_def slot_perform)

lemma fired_perform_raise: "\<not> errOnce s \<Longrightarrow> raised a \<noteq> None \<Longrightarrow> fired (perform a s)"
  by (auto simp: fired_def slot_perform)

lemma fired_fold_perform:
  assumes "fired s \<or> (\<not> errOnce s \<and> (\<exists>a \<in> set as. raised a \<noteq> None))"
  shows "fired (fold perform as s)"
  using assms
proof (induction as arbitrary: s)
  case Nil
  then show ?case by simp
next
  case (Cons a as)
  have "fired (perform a s) \<or> (\<not> errOnce (perform a s) \<and> (\<exists>a \<in> set as. raised a \<noteq> None))"
  proof (cases "fired s")
    case True
    then show ?thesis by (simp add: fired_perform)
  next
    case False
    with Cons.prems have n: "\<not> errOnce s" and ex: "\<exists>b \<in> set (a # as). raised b \<noteq> None"
      by simp_all
    show ?thesis
    proof (cases "raised a")
      case None
      with n ex show ?thesis by (auto simp: slot_perform)
    next
      case (Some e)
      with n show ?thesis by (simp add: fired_perform_raise)
    qed
  qed
  then have "fired (fold perform as (perform a s))" by (rule Cons.IH)
  then show ?case by simp
qed

lemma fired_fold_keeps: "fired s \<Longrightarrow> fired (fold perform as s)"
  by (simp add: fired_fold_perform)

lemma fired_fold_workers:
  assumes "fired s \<or> (\<not> errOnce s \<and> (\<exists>a \<in> set (concat ws). raised a \<noteq> None))"
  shows "fired (fold (\<lambda>w. fold perform w) ws s)"
  using assms
proof (induction ws arbitrary: s)
  case Nil
  then show ?case by simp
next
  case (Cons w ws)
  have "fired (fold perform w s) \<or>
        (\<not> errOnce (fold perform w s) \<and> (\<exists>a \<in> set (concat ws). raised a \<noteq> None))"
  proof (cases "fired s \<or> (\<exists>a \<in> set w. raised a \<noteq> None)")
    case True
    with Cons.prems have "fired s \<or> (\<not> errOnce s \<and> (\<exists>a \<in> set w. raised a \<noteq> None))"
      by auto
    then show ?thesis by (simp add: fired_fold_perform)
  next
    case False
    with Cons.prems have n: "\<not> errOnce s" and ex: "\<exists>a \<in> set (concat ws). raised a \<noteq> None"
      by auto
    have "\<not> errOnce (fold perform w s)"
    proof (rule fold_perform_invariant [where P = "\<lambda>s. \<not> errOnce s"])
      show "\<not> errOnce s" by (rule n)
      show "\<not> errOnce (perform a s)" if "a \<in> set w" "\<not> errOnce s" for a s
        using that False by (simp add: slot_perform)
    qed
    with ex show ?thesis by simp
  qed
  then have "fired (fold (\<lambda>w. fold perform w) ws (fold perform w s))" by (rule Cons.IH)
  then show ?case by simp
qed

lemma fired_run_workers:
  assumes "fired s \<or> (\<not> errOnce s \<and> (\<exists>a \<in> set (concat ws). raised a \<noteq> None))"
  shows "fired (run_workers sample sched ws s)"
  using assms
proof (induction sample sched ws s rule: run_workers.induct)
  case (1 sample ws s)
  then show ?case by (simp add: fired_fold_workers)
next
  case (2 sample i sched ws s)
  show ?case
  proof (cases "i < length ws \<and> ws ! i \<noteq> []")
    case True
    then obtain a as where w: "ws ! i = a # as" by (cases "ws ! i") simp_all
    have "fired (perform a s) \<or>
          (\<not> errOnce (perform a s) \<and> (\<exists>b \<in> set (concat (ws[i := as])). raised b \<noteq> None))"
    proof (cases "fired s")
      case True
      then show ?thesis by (simp add: fired_perform)
    next
      case False
      with "2.prems" have n: "\<not> errOnce s"
        and ex: "\<exists>b \<in> set (concat ws). raised b \<noteq> None" by simp_all
      show ?thesis
      proof (cases "raised a")
        case (Some e)
        with n show ?thesis by (simp add: fired_perform_raise)
      next
        case None
        from ex obtain b v where b: "v \<in> set ws" "b \<in> set v" "raised b \<noteq> None" by auto
        from b(1) obtain j where j: "j < length ws" "ws ! j = v"
          by (auto simp: in_set_conv_nth)
        have "\<exists>v' \<in> set (ws[i := as]). b \<in> set v'"
        proof (cases "j = i")
          case True
          with j w b None have "b \<in> set as" by auto
          moreover have "as \<in> set (ws[i := as])"
            using \<open>i < length ws \<and> ws ! i \<noteq> []\<close> by (simp add: set_update_memI)
          ultimately show ?thesis by blast
        next
          case False
          with j have "(ws[i := as]) ! j = v" "j < length (ws[i := as])" by simp_all
          then have "v \<in> set (ws[i := as])" by (metis nth_mem)
          with b(2) show ?thesis by blast
        qed
        with b(3) have "\<exists>b \<in> set (concat (ws[i := as])). raised b \<noteq> None" by auto
        with n None show ?thesis by (simp add: slot_perform)
      qed
    qed
    then have "fired (run_workers sample sched (ws[i := tl (ws ! i)]) (perform (hd (ws ! i)) s))"
      using True w "2.IH"(1) by simp
    with True show ?thesis by simp
  next
    case False
    then show ?thesis using "2.IH"(2) "2.prems" by auto
  qed
next
  case (3 sample d sched ws s)
  have "fired (s\<lparr>effects := effects s @ sample (totalBytes s) d\<rparr>) \<or>
        (\<not> errOnce (s\<lparr>effects := effects s @ sample (totalBytes s) d\<rparr>) \<and>
         (\<exists>a \<in> set (concat ws). raised a \<noteq> None))"
    using "3.prems" by (simp add: fired_def)
  then show ?case using "3.IH" by simp
qed

lemma runErr_run_workers:
  assumes "runErr s = None" "\<not> errOnce s"
  shows "(raised_all ws = [] \<longrightarrow> runErr (run_workers sample sched ws s) = None) \<and>
         (raised_all ws \<noteq> [] \<longrightarrow>
            (\<exists>e \<in> set (raised_all ws). runErr (run_workers sample sched ws s) = Some e))"
proof (intro conjI impI)
  assume "raised_all ws = []"
  with assms show "runErr (run_workers sample sched ws s) = None"
    by (intro runErr_none_raised)
next
  assume "raised_all ws \<noteq> []"
  then have "\<not> (\<forall>a \<in> set (concat ws). raised a = None)"
    using raised_all_empty [of ws] by blast
  then have "\<exists>a \<in> set (concat ws). raised a \<noteq> None"
    by blast
  with assms(2) have "fired (run_workers sample sched ws s)"
    by (intro fired_run_workers) simp
  then have "runErr (run_workers sample sched ws s) \<noteq> None" by (simp add: fired_def)
  with runErr_among_raised [OF assms(1), of sample sched ws]
  show "\<exists>e \<in> set (raised_all ws). runErr (run_workers sample sched ws s) = Some e"
    by simp
qed

subsection \<open>Workers against their scripts\<close>

lemma word_of_nat_sint:
  assumes "0 < sint (n :: int64)"
  shows "of_nat (nat (sint n)) = n"
proof -
  have "(of_nat (nat (sint n)) :: int64) = word_of_int (int (nat (sint n)))"
    by simp
  also have "int (nat (sint n)) = sint n" using assms by simp
  finally show ?thesis by simp
qed

lemma map_filter_append: "List.map_filter f (xs @ ys) = List.map_filter f xs @ List.map_filter f ys"
  by (simp add: map_filter_def)

lemma download_reads_None: "download_reads reads = None \<longleftrightarrow> \<not> body_ends reads"
  by (induction reads) (auto simp: Let_def split: option.splits)

lemma download_reads_sound:
  assumes "download_reads reads = Some as"
  shows "sum_list (map added as) = of_nat (body_bytes reads)
       \<and> List.map_filter raised as = (case body_fatal reads of None \<Rightarrow> [] | Some e \<Rightarrow> [e])
       \<and> List.map_filter request as = []"
  using assms
proof (induction reads arbitrary: as)
  case Nil
  then show ?case by simp
next
  case (Cons r reads)
  obtain n err where r: "r = (n, err)" by (cases r)
  show ?case
  proof (cases err)
    case None
    with Cons.prems r obtain as' where as': "download_reads reads = Some as'"
      and as: "as = (if 0 < sint n then [AtomicAddInt64 n] else []) @ as'"
      by (auto simp: Let_def)
    from Cons.IH [OF as'] show ?thesis
      by (simp add: as r None map_filter_append word_of_nat_sint)
  next
    case (Some e)
    with Cons.prems r have as: "as = (if 0 < sint n then [AtomicAddInt64 n] else []) @
        (if \<not> errors_Is e EOF then [SetRunErr (Some e)] else [])"
      by (auto simp: Let_def)
    show ?thesis
      by (simp add: as r Some word_of_nat_sint)
  qed
qed

lemma download_worker_None:
  "download_worker mem cfg psb script = None \<longleftrightarrow>
     (\<exists>reads. script = Body reads \<and>
        (\<not> makeslice mem 1 (ChunkSize cfg) \<or> \<not> body_ends reads))"
  by (cases script) (auto simp: download_worker_def Let_def download_reads_None)

lemma download_worker_sound:
  assumes "download_worker mem cfg psb script = Some as"
  shows "sum_list (map added as) = of_nat (download_bytes script)
       \<and> List.map_filter raised as = (case download_fatal script of None \<Rightarrow> [] | Some e \<Rightarrow> [e])
       \<and> set (List.map_filter request as)
           \<subseteq> {HttpGet (BaseURL cfg @ ''/download?size='' @ format_d psb)}"
proof (cases script)
  case (NewRequestFails e)
  with assms have "as = [SetRunErr (Some e)]" by (simp add: download_worker_def)
  with NewRequestFails show ?thesis by simp
next
  case (DoFails e)
  with assms have "as = [Effect (HttpGet (BaseURL cfg @ ''/download?size='' @ format_d psb)),
      SetRunErr (Some e)]"
    by (simp add: download_worker_def)
  with DoFails show ?thesis by simp
next
  case (Body reads)
  with assms obtain as' where as': "download_reads reads = Some as'"
    and as: "as = Effect (HttpGet (BaseURL cfg @ ''/download?size='' @ format_d psb)) # as'"
    by (auto simp: download_worker_def Let_def split: if_splits)
  from download_reads_sound [OF as'] show ?thesis
    by (simp add: as Body)
qed

lemma those_map_Some:
  assumes "those (map f xs) = Some ys"
  shows "ys = map (\<lambda>x. the (f x)) xs \<and> (\<forall>x \<in> set xs. f x = Some (the (f x)))"
  using assms
proof (induction xs arbitrary: ys)
  case Nil
  then show ?case by simp
next
  case (Cons x xs)
  then show ?case by (auto split: option.splits)
qed

lemma those_map_None:
  "those (map f xs) = None \<longleftrightarrow> (\<exists>x \<in> set xs. f x = None)"
  by (induction xs) (auto split: option.splits)

lemma added_all_map:
  assumes "\<forall>x \<in> set xs. sum_list (map added (g x)) = of_nat (b x)"
  shows "added_all (map g xs) = of_nat (sum_list (map b xs))"
  using assms by (induction xs) (simp_all add: added_all_def)

lemma raised_all_map:
  assumes "\<forall>x \<in> set xs. List.map_filter raised (g x) = (case h x of None \<Rightarrow> [] | Some e \<Rightarrow> [e])"
  shows "raised_all (map g xs) = List.map_filter h xs"
  using assms
  by (induction xs) (auto simp: raised_all_def map_filter_append split: option.splits)


subsection \<open>The download phase\<close>

lemma download_phase_workers:
  assumes "those (spawn (Streams cfg) (\<lambda>i. download_worker mem cfg psb (stream env i))) = Some ws"
  shows "added_all ws = of_nat (download_total env cfg)"
    and "raised_all ws = download_fatals env cfg"
    and "\<forall>a \<in> set (concat ws). \<forall>e. request a = Some e \<longrightarrow>
           e = HttpGet (BaseURL cfg @ ''/download?size='' @ format_d psb)"
proof -
  let ?f = "\<lambda>i. download_worker mem cfg psb (stream env i)"
  let ?g = "\<lambda>i. the (?f i)"
  from assms have m: "those (map ?f (workers_of cfg)) = Some ws"
    by (simp add: spawn_def workers_of_def)
  from those_map_Some [OF m]
  have ws: "ws = map ?g (workers_of cfg)"
    and some: "\<forall>i \<in> set (workers_of cfg). ?f i = Some (?g i)" by simp_all
  have snd: "\<forall>i \<in> set (workers_of cfg).
      sum_list (map added (?g i)) = of_nat (download_bytes (stream env i))
    \<and> List.map_filter raised (?g i) =
        (case download_fatal (stream env i) of None \<Rightarrow> [] | Some e \<Rightarrow> [e])
    \<and> set (List.map_filter request (?g i))
        \<subseteq> {HttpGet (BaseURL cfg @ ''/download?size='' @ format_d psb)}"
    using some download_worker_sound by blast
  show "added_all ws = of_nat (download_total env cfg)"
    unfolding ws download_total_def using snd by (intro added_all_map) simp
  show "raised_all ws = download_fatals env cfg"
    unfolding ws download_fatals_def using snd by (intro raised_all_map) simp
  show "\<forall>a \<in> set (concat ws). \<forall>e. request a = Some e \<longrightarrow>
           e = HttpGet (BaseURL cfg @ ''/download?size='' @ format_d psb)"
  proof (intro ballI allI impI)
    fix a e assume a: "a \<in> set (concat ws)" and e: "request a = Some e"
    from a obtain i where i: "i \<in> set (workers_of cfg)" "a \<in> set (?g i)"
      unfolding ws by auto
    from i(2) e have "e \<in> set (List.map_filter request (?g i))"
      using in_map_filter [of e request "?g i"] by blast
    with snd i(1) show "e = HttpGet (BaseURL cfg @ ''/download?size='' @ format_d psb)"
      by blast
  qed
qed

lemma initial_slot: "runErr initial_shared = None" "\<not> errOnce initial_shared"
  "totalBytes initial_shared = 0" "effects initial_shared = []"
  by (simp_all add: initial_shared_def)

lemma runDownload_Some:
  assumes "runDownload mem env cfg = Some (m, err, fx)"
  shows "\<exists>r. (download_fatals env cfg = [] \<longrightarrow> r = None)
     \<and> (download_fatals env cfg \<noteq> [] \<longrightarrow> (\<exists>e \<in> set (download_fatals env cfg). r = Some e))
     \<and> (m, err) =
         (if r \<noteq> None then (zero_SpeedMetrics, r)
          else if (of_nat (download_total env cfg) :: int64) = 0
          then (zero_SpeedMetrics, Some (ErrorString ''download returned no data''))
          else (\<lparr>SpeedMetrics.Mbps = bytesToMbps (of_nat (download_total env cfg)) (elapsed env),
                 Bytes = of_nat (download_total env cfg), Duration = elapsed env\<rparr>, None))"
proof -
  define psb where "psb = DownloadMB cfg * 1024 * 1024"
  define sample where "sample = (\<lambda>current since.
            reportProgress cfg ''download'' (percentDone current (psb * Streams cfg))
              (bytesToMbps current since) (Fin 0))"
  from assms obtain ws where
    ws: "those (spawn (Streams cfg) (\<lambda>i. download_worker mem cfg psb (stream env i))) = Some ws"
    by (auto simp: runDownload_def Let_def psb_def split: option.splits)
  define s where "s = run_workers sample (schedule env) ws initial_shared"
  have tot: "totalBytes s = of_nat (download_total env cfg)"
    unfolding s_def by (simp add: totalBytes_run_workers initial_slot download_phase_workers(1) [OF ws])
  have slot: "(download_fatals env cfg = [] \<longrightarrow> runErr s = None)
     \<and> (download_fatals env cfg \<noteq> [] \<longrightarrow> (\<exists>e \<in> set (download_fatals env cfg). runErr s = Some e))"
    unfolding s_def
    using runErr_run_workers [OF initial_slot(1,2), of ws sample "schedule env"]
    by (simp only: download_phase_workers(2) [OF ws])
  have res: "(m, err) =
         (if runErr s \<noteq> None then (zero_SpeedMetrics, runErr s)
          else if totalBytes s = 0
          then (zero_SpeedMetrics, Some (ErrorString ''download returned no data''))
          else (\<lparr>SpeedMetrics.Mbps = bytesToMbps (totalBytes s) (elapsed env),
                 Bytes = totalBytes s, Duration = elapsed env\<rparr>, None))"
  proof -
    define fx' where "fx' = effects s @
        reportProgress cfg ''download'' (Fin 100) (bytesToMbps (totalBytes s) (elapsed env)) (Fin 0) @
        concat (map (sample (totalBytes s)) (late_ticks env))"
    have "runDownload mem env cfg =
        (if runErr s \<noteq> None then Some (zero_SpeedMetrics, runErr s, fx')
         else if totalBytes s = 0
         then Some (zero_SpeedMetrics, Some (ErrorString ''download returned no data''), fx')
         else Some (\<lparr>SpeedMetrics.Mbps = bytesToMbps (totalBytes s) (elapsed env),
                 Bytes = totalBytes s, Duration = elapsed env\<rparr>, None, fx'))"
      using ws unfolding runDownload_def Let_def s_def fx'_def sample_def psb_def by simp
    with assms have "Some (m, err, fx) =
        (if runErr s \<noteq> None then Some (zero_SpeedMetrics, runErr s, fx')
         else if totalBytes s = 0
         then Some (zero_SpeedMetrics, Some (ErrorString ''download returned no data''), fx')
         else Some (\<lparr>SpeedMetrics.Mbps = bytesToMbps (totalBytes s) (elapsed env),
                 Bytes = totalBytes s, Duration = elapsed env\<rparr>, None, fx'))"
      by simp
    then show ?thesis
      by (cases "runErr s = None"; cases "totalBytes s = 0") simp_all
  qed
  show ?thesis
  proof (intro exI [of _ "runErr s"] conjI)
    show "download_fatals env cfg = [] \<longrightarrow> runErr s = None"
      using slot by (rule conjunct1)
    show "download_fatals env cfg \<noteq> [] \<longrightarrow>
        (\<exists>e \<in> set (download_fatals env cfg). runErr s = Some e)"
      using slot by (rule conjunct2)
    show "(m, err) =
         (if runErr s \<noteq> None then (zero_SpeedMetrics, runErr s)
          else if (of_nat (download_total env cfg) :: int64) = 0
          then (zero_SpeedMetrics, Some (ErrorString ''download returned no data''))
          else (\<lparr>SpeedMetrics.Mbps = bytesToMbps (of_nat (download_total env cfg)) (elapsed env),
                 Bytes = of_nat (download_total env cfg), Duration = elapsed env\<rparr>, None))"
      by (rule res [unfolded tot])
  qed
qed

lemma runDownload_None:
  "runDownload mem env cfg = None \<longleftrightarrow>
     (\<exists>i \<in> set (workers_of cfg).
        download_worker mem cfg (DownloadMB cfg * 1024 * 1024) (stream env i) = None)"
proof -
  have "runDownload mem env cfg = None \<longleftrightarrow>
      those (spawn (Streams cfg)
        (\<lambda>i. download_worker mem cfg (DownloadMB cfg * 1024 * 1024) (stream env i))) = None"
    by (auto simp: runDownload_def Let_def split: option.splits)
  then show ?thesis
    by (simp add: spawn_def workers_of_def those_map_None)
qed


subsection \<open>The upload phase\<close>

lemma timedReader_Read_sound:
  assumes "timedReader_Read t c = Some (res, t', as)" "has_total t"
  shows "sum_list (map added as) = of_nat (generated (chunkSize t) [c])
       \<and> List.map_filter raised as = [] \<and> List.map_filter request as = []
       \<and> chunkSize t' = chunkSize t \<and> has_total t'"
proof (cases "ctx_err c = None \<and> rand_err c = None")
  case False
  with assms show ?thesis
    by (auto simp: timedReader_Read_def Let_def split: if_splits option.splits)
next
  case True
  with assms have np: "\<not> (sint (chunkSize t) < int (buf_len c) \<and> sint (chunkSize t) < 0)"
    by (auto simp: timedReader_Read_def split: if_splits)
  define len_p where "len_p = (if sint (chunkSize t) < int (buf_len c) then nat (sint (chunkSize t))
                     else buf_len c)"
  have lp: "len_p = min (buf_len c) (nat (sint (chunkSize t)))"
    using np by (auto simp: len_p_def min_def)
  from assms True np have "as = [AtomicAddInt64 (of_nat len_p)]"
    and "t' = t\<lparr>count := count t + of_nat len_p\<rparr>"
    by (auto simp: timedReader_Read_def Let_def len_p_def)
  with assms(2) True show ?thesis by (simp add: lp)
qed

lemma timedReader_Read_None:
  "timedReader_Read t c = None \<longleftrightarrow>
     (ctx_err c = None \<and> sint (chunkSize t) < int (buf_len c) \<and> sint (chunkSize t) < 0)"
  by (auto simp: timedReader_Read_def Let_def split: option.splits)

lemma generated_Cons: "generated chunk (c # cs) = generated chunk [c] + generated chunk cs"
  by simp

lemma reader_calls_sound:
  assumes "reader_calls t calls = Some (t', as)" "has_total t"
  shows "sum_list (map added as) = of_nat (generated (chunkSize t) calls)
       \<and> List.map_filter raised as = [] \<and> List.map_filter request as = []"
  using assms
proof (induction calls arbitrary: t t' as)
  case Nil
  then show ?case by simp
next
  case (Cons c calls)
  from Cons.prems(1) obtain res t1 as1 t2 as2 where
    r1: "timedReader_Read t c = Some (res, t1, as1)"
    and r2: "reader_calls t1 calls = Some (t2, as2)"
    and as: "as = as1 @ as2"
    by (auto split: option.splits)
  from timedReader_Read_sound [OF r1 Cons.prems(2)]
  have s1: "sum_list (map added as1) = of_nat (generated (chunkSize t) [c])"
    "List.map_filter raised as1 = []" "List.map_filter request as1 = []"
    "chunkSize t1 = chunkSize t" "has_total t1" by simp_all
  from Cons.IH [OF r2 s1(5)]
  have s2: "sum_list (map added as2) = of_nat (generated (chunkSize t) calls)"
    "List.map_filter raised as2 = []" "List.map_filter request as2 = []"
    by (simp_all add: s1(4))
  have "sum_list (map added as) =
      of_nat (generated (chunkSize t) [c]) + of_nat (generated (chunkSize t) calls)"
    by (simp add: as s1(1) s2(1))
  also have "\<dots> = of_nat (generated (chunkSize t) (c # calls))"
    by (subst generated_Cons) simp
  finally show ?case
    by (simp add: as map_filter_append s1 s2)
qed

lemma reader_calls_total:
  assumes "0 \<le> sint (chunkSize t)"
  shows "reader_calls t calls \<noteq> None"
  using assms
proof (induction calls arbitrary: t)
  case Nil
  then show ?case by simp
next
  case (Cons c calls)
  from Cons.prems have "timedReader_Read t c \<noteq> None"
    by (simp add: timedReader_Read_None)
  then obtain res t1 as1 where r1: "timedReader_Read t c = Some (res, t1, as1)"
    by (cases "timedReader_Read t c") auto
  then have "chunkSize t1 = chunkSize t"
    by (auto simp: timedReader_Read_def Let_def split: if_splits option.splits)
  with Cons.prems have "reader_calls t1 calls \<noteq> None" by (intro Cons.IH) simp
  with r1 show ?case by auto
qed

lemma upload_worker_sound:
  assumes "upload_worker cfg script = Some as"
  shows "sum_list (map added as) = of_nat (upload_bytes (ChunkSize cfg) script)
       \<and> List.map_filter raised as = (case upload_fatal script of None \<Rightarrow> [] | Some e \<Rightarrow> [e])
       \<and> set (List.map_filter request as) \<subseteq> {HttpPost (BaseURL cfg @ ''/upload'')}"
proof (cases script)
  case (UploadRequestFails e)
  with assms have "as = [SetRunErr (Some e)]" by (simp add: upload_worker_def)
  with UploadRequestFails show ?thesis by simp
next
  case (UploadDo calls res)
  define reader where "reader = \<lparr>chunkSize = ChunkSize cfg, count = 0, has_total = True\<rparr>"
  define tail where "tail = (case res of
                           Some err \<Rightarrow>
                             if errors_Is err DeadlineExceeded \<or> errors_Is err Canceled then []
                             else [SetRunErr (Some err)]
                         | None \<Rightarrow> [])"
  from assms UploadDo obtain t' as' where rc: "reader_calls reader calls = Some (t', as')"
    and as: "as = Effect (HttpPost (BaseURL cfg @ ''/upload'')) # as' @ tail"
    by (auto simp: upload_worker_def Let_def reader_def tail_def split: option.splits)
  have ht: "has_total reader" "chunkSize reader = ChunkSize cfg" by (simp_all add: reader_def)
  from reader_calls_sound [OF rc ht(1)]
  have s: "sum_list (map added as') = of_nat (generated (ChunkSize cfg) calls)"
    "List.map_filter raised as' = []" "List.map_filter request as' = []"
    by (simp_all add: ht(2))
  have t: "sum_list (map added tail) = 0" "List.map_filter request tail = []"
    "List.map_filter raised tail = (case upload_fatal script of None \<Rightarrow> [] | Some e \<Rightarrow> [e])"
    by (auto simp: tail_def UploadDo expected_cancellation_def split: option.splits)
  show ?thesis
    by (simp add: as map_filter_append s t UploadDo)
qed

lemma upload_worker_total:
  assumes "0 \<le> sint (ChunkSize cfg)"
  shows "upload_worker cfg script \<noteq> None"
proof (cases script)
  case (UploadRequestFails e)
  then show ?thesis by (simp add: upload_worker_def)
next
  case (UploadDo calls res)
  have "reader_calls \<lparr>chunkSize = ChunkSize cfg, count = 0, has_total = True\<rparr> calls \<noteq> None"
    using assms by (intro reader_calls_total) simp
  then show ?thesis
    by (auto simp: upload_worker_def UploadDo Let_def split: option.splits)
qed

lemma upload_phase_workers:
  assumes "those (spawn (Streams cfg) (\<lambda>i. upload_worker cfg (stream env i))) = Some ws"
  shows "added_all ws = of_nat (upload_total env cfg)"
    and "raised_all ws = upload_fatals env cfg"
    and "\<forall>a \<in> set (concat ws). \<forall>e. request a = Some e \<longrightarrow>
           e = HttpPost (BaseURL cfg @ ''/upload'')"
proof -
  let ?f = "\<lambda>i. upload_worker cfg (stream env i)"
  let ?g = "\<lambda>i. the (?f i)"
  from assms have m: "those (map ?f (workers_of cfg)) = Some ws"
    by (simp add: spawn_def workers_of_def)
  from those_map_Some [OF m]
  have ws: "ws = map ?g (workers_of cfg)"
    and some: "\<forall>i \<in> set (workers_of cfg). ?f i = Some (?g i)" by simp_all
  have snd: "\<forall>i \<in> set (workers_of cfg).
      sum_list (map added (?g i)) = of_nat (upload_bytes (ChunkSize cfg) (stream env i))
    \<and> List.map_filter raised (?g i) =
        (case upload_fatal (stream env i) of None \<Rightarrow> [] | Some e \<Rightarrow> [e])
    \<and> set (List.map_filter request (?g i)) \<subseteq> {HttpPost (BaseURL cfg @ ''/upload'')}"
    using some upload_worker_sound by blast
  show "added_all ws = of_nat (upload_total env cfg)"
    unfolding ws upload_total_def using snd by (intro added_all_map) simp
  show "raised_all ws = upload_fatals env cfg"
    unfolding ws upload_fatals_def using snd by (intro raised_all_map) simp
  show "\<forall>a \<in> set (concat ws). \<forall>e. request a = Some e \<longrightarrow>
           e = HttpPost (BaseURL cfg @ ''/upload'')"
  proof (intro ballI allI impI)
    fix a e assume a: "a \<in> set (concat ws)" and e: "request a = Some e"
    from a obtain i where i: "i \<in> set (workers_of cfg)" "a \<in> set (?g i)"
      unfolding ws by auto
    from i(2) e have "e \<in> set (List.map_filter request (?g i))"
      using in_map_filter [of e request "?g i"] by blast
    with snd i(1) show "e = HttpPost (BaseURL cfg @ ''/upload'')"
      by blast
  qed
qed

lemma runUpload_Some:
  assumes "runUpload env cfg = Some (m, err, fx)"
  shows "\<exists>r. (upload_fatals env cfg = [] \<longrightarrow> r = None)
     \<and> (upload_fatals env cfg \<noteq> [] \<longrightarrow> (\<exists>e \<in> set (upload_fatals env cfg). r = Some e))
     \<and> (m, err) =
         (if r \<noteq> None then (zero_SpeedMetrics, r)
          else if (of_nat (upload_total env cfg) :: int64) = 0
          then (zero_SpeedMetrics, Some (ErrorString ''upload sent no data''))
          else (\<lparr>SpeedMetrics.Mbps = bytesToMbps (of_nat (upload_total env cfg)) (elapsed env),
                 Bytes = of_nat (upload_total env cfg), Duration = elapsed env\<rparr>, None))"
proof -
  define sample where "sample = (\<lambda>current since.
            reportProgress cfg ''upload'' (percentElapsed since (ClientConfig.Duration cfg))
              (bytesToMbps current since) (Fin 0))"
  from assms obtain ws where
    ws: "those (spawn (Streams cfg) (\<lambda>i. upload_worker cfg (stream env i))) = Some ws"
    by (auto simp: runUpload_def Let_def split: option.splits)
  define s where "s = run_workers sample (schedule env) ws initial_shared"
  have tot: "totalBytes s = of_nat (upload_total env cfg)"
    unfolding s_def by (simp add: totalBytes_run_workers initial_slot upload_phase_workers(1) [OF ws])
  have slot: "(upload_fatals env cfg = [] \<longrightarrow> runErr s = None)
     \<and> (upload_fatals env cfg \<noteq> [] \<longrightarrow> (\<exists>e \<in> set (upload_fatals env cfg). runErr s = Some e))"
    unfolding s_def
    using runErr_run_workers [OF initial_slot(1,2), of ws sample "schedule env"]
    by (simp only: upload_phase_workers(2) [OF ws])
  have res: "(m, err) =
         (if runErr s \<noteq> None then (zero_SpeedMetrics, runErr s)
          else if totalBytes s = 0
          then (zero_SpeedMetrics, Some (ErrorString ''upload sent no data''))
          else (\<lparr>SpeedMetrics.Mbps = bytesToMbps (totalBytes s) (elapsed env),
                 Bytes = totalBytes s, Duration = elapsed env\<rparr>, None))"
  proof -
    define fx' where "fx' = effects s @
        reportProgress cfg ''upload'' (Fin 100) (bytesToMbps (totalBytes s) (elapsed env)) (Fin 0) @
        concat (map (sample (totalBytes s)) (late_ticks env))"
    have "runUpload env cfg =
        (if runErr s \<noteq> None then Some (zero_SpeedMetrics, runErr s, fx')
         else if totalBytes s = 0
         then Some (zero_SpeedMetrics, Some (ErrorString ''upload sent no data''), fx')
         else Some (\<lparr>SpeedMetrics.Mbps = bytesToMbps (totalBytes s) (elapsed env),
                 Bytes = totalBytes s, Duration = elapsed env\<rparr>, None, fx'))"
      using ws unfolding runUpload_def Let_def s_def fx'_def sample_def by simp
    with assms have "Some (m, err, fx) =
        (if runErr s \<noteq> None then Some (zero_SpeedMetrics, runErr s, fx')
         else if totalBytes s = 0
         then Some (zero_SpeedMetrics, Some (ErrorString ''upload sent no data''), fx')
         else Some (\<lparr>SpeedMetrics.Mbps = bytesToMbps (totalBytes s) (elapsed env),
                 Bytes = totalBytes s, Duration = elapsed env\<rparr>, None, fx'))"
      by simp
    then show ?thesis
      by (cases "runErr s = None"; cases "totalBytes s = 0") simp_all
  qed
  show ?thesis
  proof (intro exI [of _ "runErr s"] conjI)
    show "upload_fatals env cfg = [] \<longrightarrow> runErr s = None"
      using slot by (rule conjunct1)
    show "upload_fatals env cfg \<noteq> [] \<longrightarrow>
        (\<exists>e \<in> set (upload_fatals env cfg). runErr s = Some e)"
      using slot by (rule conjunct2)
    show "(m, err) =
         (if runErr s \<noteq> None then (zero_SpeedMetrics, runErr s)
          else if (of_nat (upload_total env cfg) :: int64) = 0
          then (zero_SpeedMetrics, Some (ErrorString ''upload sent no data''))
          else (\<lparr>SpeedMetrics.Mbps = bytesToMbps (of_nat (upload_total env cfg)) (elapsed env),
                 Bytes = of_nat (upload_total env cfg), Duration = elapsed env\<rparr>, None))"
      by (rule res [unfolded tot])
  qed
qed

lemma runUpload_None:
  "runUpload env cfg = None \<longleftrightarrow>
     (\<exists>i \<in> set (workers_of cfg). upload_worker cfg (stream env i) = None)"
proof -
  have "runUpload env cfg = None \<longleftrightarrow>
      those (spawn (Streams cfg) (\<lambda>i. upload_worker cfg (stream env i))) = None"
    by (auto simp: runUpload_def Let_def split: option.splits)
  then show ?thesis
    by (simp add: spawn_def workers_of_def those_map_None)
qed

subsection \<open>The outcome of a throughput phase\<close>

lemma upt_two: "[0 ..< 2] = [0, Suc 0]"
  by (simp add: upt_rec)

lemmas run_eval =
  upt_two spawn_def workers_of_def download_worker_def upload_worker_def timedReader_Read_def
  initial_shared_def setRunErr_def reportProgress_def Let_def makeslice_def maxAlloc_def
  example_memory_def

lemma download_all_fail_run:
  "\<exists>fx. runDownload example_memory download_all_fail example_cfg = Some (zero_SpeedMetrics, Some reset, fx)"
  by (simp add: runDownload_def download_all_fail_def example_cfg_def reset_def run_eval)

lemma download_nothing_run:
  "\<exists>fx. runDownload example_memory download_nothing example_cfg =
     Some (zero_SpeedMetrics, Some (ErrorString ''download returned no data''), fx)"
  by (simp add: runDownload_def download_nothing_def example_cfg_def run_eval)

lemma download_two_streams_run:
  "\<exists>fx. runDownload example_memory download_two_streams example_cfg =
     Some (\<lparr>SpeedMetrics.Mbps = Fin 16, Bytes = 2000000, Duration = 1000000000\<rparr>, None, fx)"
  by (simp add: runDownload_def download_two_streams_def example_cfg_def run_eval
      bytesToMbps_def f64_eval go_eval round_eval)

lemma upload_deadline_run:
  "\<exists>fx. runUpload upload_deadline example_cfg =
     Some (\<lparr>SpeedMetrics.Mbps = Fin 2, Bytes = 500000, Duration = 2000000000\<rparr>, None, fx)"
  by (simp add: runUpload_def upload_deadline_def example_cfg_def run_eval
      bytesToMbps_def f64_eval go_eval round_eval)


lemma word_of_nat_small:
  assumes "n < 2 ^ 63"
  shows "sint (of_nat n :: int64) = int n" and "(of_nat n :: int64) = 0 \<longleftrightarrow> n = 0"
proof -
  have i: "int n < 2 ^ 63" using assms by (metis of_nat_less_iff of_nat_numeral of_nat_power)
  have "(of_nat n :: int64) = word_of_int (int n)" by simp
  then have "sint (of_nat n :: int64) = sint (word_of_int (int n) :: int64)" by simp
  also have "\<dots> = int n" using i by (intro sint_word_of_int_id) simp_all
  finally show s: "sint (of_nat n :: int64) = int n" .
  show "(of_nat n :: int64) = 0 \<longleftrightarrow> n = 0"
  proof
    assume "(of_nat n :: int64) = 0"
    then have "sint (of_nat n :: int64) = 0" by simp
    with s show "n = 0" by simp
  qed simp
qed

text \<open>
  Claim C3. When the download phase returns: if a worker has captured a fatal error
  (a failed request, or a read error that is not the end of the stream), the phase
  returns one of the captured errors with the zero metrics, whatever the counter holds;
  with no fatal error and a zero counter it returns the NoData error; with no fatal
  error and a non-zero counter it succeeds. It returns exactly when, for every worker
  that gets a response, the read buffer is allocated and the stream ends. In particular,
  when the buffer can be allocated and the first read of every worker fails with an
  error that is not the end of the stream, the phase returns one of these errors, not
  NoData.
\<close>

theorem runDownload_error_priority:
  "(\<forall>m err fx. runDownload mem env cfg = Some (m, err, fx) \<longrightarrow>
      (download_fatals env cfg \<noteq> [] \<longrightarrow>
         m = zero_SpeedMetrics \<and> (\<exists>e \<in> set (download_fatals env cfg). err = Some e))
    \<and> (download_fatals env cfg = [] \<and> (of_nat (download_total env cfg) :: int64) = 0 \<longrightarrow>
         m = zero_SpeedMetrics \<and> err = Some (ErrorString ''download returned no data''))
    \<and> (download_fatals env cfg = [] \<and> (of_nat (download_total env cfg) :: int64) \<noteq> 0 \<longrightarrow>
         err = None \<and>
         m = \<lparr>SpeedMetrics.Mbps = bytesToMbps (of_nat (download_total env cfg)) (elapsed env),
              Bytes = of_nat (download_total env cfg), Duration = elapsed env\<rparr>))
   \<and> (runDownload mem env cfg \<noteq> None \<longleftrightarrow>
        (\<forall>i \<in> set (workers_of cfg). \<forall>reads. stream env i = Body reads \<longrightarrow>
           makeslice mem 1 (ChunkSize cfg) \<and> body_ends reads))
   \<and> (makeslice mem 1 (ChunkSize cfg) \<and> workers_of cfg \<noteq> [] \<and>
       (\<forall>i \<in> set (workers_of cfg). \<exists>n e rest.
           stream env i = Body ((n, Some e) # rest) \<and> \<not> errors_Is e EOF) \<longrightarrow>
        (\<exists>e fx. runDownload mem env cfg = Some (zero_SpeedMetrics, Some e, fx) \<and>
           (\<exists>i \<in> set (workers_of cfg). \<exists>n rest. stream env i = Body ((n, Some e) # rest))))"
proof (intro conjI allI impI)
  show "runDownload mem env cfg \<noteq> None \<longleftrightarrow>
        (\<forall>i \<in> set (workers_of cfg). \<forall>reads. stream env i = Body reads \<longrightarrow>
           makeslice mem 1 (ChunkSize cfg) \<and> body_ends reads)"
    unfolding runDownload_None download_worker_None by blast
next
  fix m err fx
  assume ret: "runDownload mem env cfg = Some (m, err, fx)"
  from runDownload_Some [OF ret] obtain r where
    r1: "download_fatals env cfg = [] \<longrightarrow> r = None"
    and r2: "download_fatals env cfg \<noteq> [] \<longrightarrow> (\<exists>e \<in> set (download_fatals env cfg). r = Some e)"
    and r3: "(m, err) =
         (if r \<noteq> None then (zero_SpeedMetrics, r)
          else if (of_nat (download_total env cfg) :: int64) = 0
          then (zero_SpeedMetrics, Some (ErrorString ''download returned no data''))
          else (\<lparr>SpeedMetrics.Mbps = bytesToMbps (of_nat (download_total env cfg)) (elapsed env),
                 Bytes = of_nat (download_total env cfg), Duration = elapsed env\<rparr>, None))"
    by blast
  {
    assume "download_fatals env cfg \<noteq> []"
    with r2 obtain e where e: "e \<in> set (download_fatals env cfg)" "r = Some e" by blast
    with r3 show "m = zero_SpeedMetrics" by simp
    from e r3 show "\<exists>e \<in> set (download_fatals env cfg). err = Some e" by simp
  }
  {
    assume "download_fatals env cfg = [] \<and> (of_nat (download_total env cfg) :: int64) = 0"
    with r1 r3 show "m = zero_SpeedMetrics"
      and "err = Some (ErrorString ''download returned no data'')" by simp_all
  }
  {
    assume "download_fatals env cfg = [] \<and> (of_nat (download_total env cfg) :: int64) \<noteq> 0"
    with r1 r3 show "err = None"
      and "m = \<lparr>SpeedMetrics.Mbps = bytesToMbps (of_nat (download_total env cfg)) (elapsed env),
              Bytes = of_nat (download_total env cfg), Duration = elapsed env\<rparr>" by simp_all
  }
next
  assume a: "makeslice mem 1 (ChunkSize cfg) \<and> workers_of cfg \<noteq> [] \<and>
       (\<forall>i \<in> set (workers_of cfg). \<exists>n e rest.
           stream env i = Body ((n, Some e) # rest) \<and> \<not> errors_Is e EOF)"
  have "runDownload mem env cfg \<noteq> None"
  proof
    assume "runDownload mem env cfg = None"
    then obtain i where i: "i \<in> set (workers_of cfg)"
      "download_worker mem cfg (DownloadMB cfg * 1024 * 1024) (stream env i) = None"
      unfolding runDownload_None by blast
    from i(2) obtain reads where r: "stream env i = Body reads"
      "\<not> makeslice mem 1 (ChunkSize cfg) \<or> \<not> body_ends reads"
      unfolding download_worker_None by blast
    from a i(1) obtain n e rest where "stream env i = Body ((n, Some e) # rest)" by blast
    with r have "body_ends reads" by auto
    with r a show False by simp
  qed
  then obtain m err fx where ret: "runDownload mem env cfg = Some (m, err, fx)"
    by (cases "runDownload mem env cfg") auto
  from a obtain j where j: "j \<in> set (workers_of cfg)" by (cases "workers_of cfg") auto
  with a obtain n e rest where "stream env j = Body ((n, Some e) # rest)" "\<not> errors_Is e EOF"
    by blast
  then have "download_fatal (stream env j) = Some e" by simp
  with j have "e \<in> set (download_fatals env cfg)"
    unfolding download_fatals_def in_map_filter by blast
  then have ne: "download_fatals env cfg \<noteq> []" by auto
  from runDownload_Some [OF ret] ne obtain e' where
    e': "e' \<in> set (download_fatals env cfg)" "(m, err) = (zero_SpeedMetrics, Some e')"
    by auto
  from e'(1) obtain i where i: "i \<in> set (workers_of cfg)" "download_fatal (stream env i) = Some e'"
    unfolding download_fatals_def in_map_filter by blast
  from a i(1) obtain n' e'' rest' where s: "stream env i = Body ((n', Some e'') # rest')"
    "\<not> errors_Is e'' EOF" by blast
  with i(2) have "e'' = e'" by simp
  with s i(1) have "\<exists>i \<in> set (workers_of cfg). \<exists>n rest. stream env i = Body ((n, Some e') # rest)"
    by blast
  with ret e'(2) show "\<exists>e fx. runDownload mem env cfg = Some (zero_SpeedMetrics, Some e, fx) \<and>
           (\<exists>i \<in> set (workers_of cfg). \<exists>n rest. stream env i = Body ((n, Some e) # rest))"
    by auto
qed


theorem runDownload_error_priority_witness:
  "makeslice example_memory 1 (ChunkSize example_cfg)
   \<and> workers_of example_cfg = [0, Suc 0]
   \<and> stream download_all_fail 0 = Body [(0, Some reset)]
   \<and> stream download_all_fail (Suc 0) = Body [(0, Some reset)]
   \<and> \<not> errors_Is reset EOF
   \<and> download_fatals download_all_fail example_cfg = [reset, reset]
   \<and> (\<exists>fx. runDownload example_memory download_all_fail example_cfg =
         Some (zero_SpeedMetrics, Some reset, fx))
   \<and> download_fatals download_nothing example_cfg = []
   \<and> (of_nat (download_total download_nothing example_cfg) :: int64) = 0
   \<and> (\<exists>fx. runDownload example_memory download_nothing example_cfg =
         Some (zero_SpeedMetrics, Some (ErrorString ''download returned no data''), fx))
   \<and> \<not> makeslice example_memory 1 (2 ^ 50)
   \<and> runDownload example_memory download_all_fail (example_cfg\<lparr>ChunkSize := 2 ^ 50\<rparr>) = None"
proof -
  have w: "workers_of example_cfg = [0, Suc 0]"
    by (simp add: workers_of_def example_cfg_def upt_two)
  have c: "makeslice example_memory 1 (ChunkSize example_cfg)"
    by (simp add: example_cfg_def makeslice_def maxAlloc_def example_memory_def)
  have s: "stream download_all_fail 0 = Body [(0, Some reset)]"
    "stream download_all_fail (Suc 0) = Body [(0, Some reset)]"
    by (simp_all add: download_all_fail_def)
  have r: "\<not> errors_Is reset EOF" by (simp add: reset_def)
  have f: "download_fatals download_all_fail example_cfg = [reset, reset]"
    using r by (simp add: download_fatals_def w s)
  have n: "download_fatals download_nothing example_cfg = []"
    "(of_nat (download_total download_nothing example_cfg) :: int64) = 0"
    by (simp_all add: download_fatals_def download_total_def w download_nothing_def)
  have hyp: "makeslice example_memory 1 (ChunkSize example_cfg) \<and> workers_of example_cfg \<noteq> [] \<and>
       (\<forall>i \<in> set (workers_of example_cfg). \<exists>n e rest.
           stream download_all_fail i = Body ((n, Some e) # rest) \<and> \<not> errors_Is e EOF)"
    using c r by (simp add: w s)
  have big: "\<not> makeslice example_memory 1 (2 ^ 50)"
    by (simp add: makeslice_def maxAlloc_def example_memory_def)
  have wb: "workers_of (example_cfg\<lparr>ChunkSize := c\<rparr>) = [0, Suc 0]" for c
    by (simp add: workers_of_def example_cfg_def upt_two)
  note t1 = runDownload_error_priority [of example_memory download_all_fail example_cfg]
  note t2 = runDownload_error_priority [of example_memory download_nothing example_cfg]
  note t3 = runDownload_error_priority
    [of example_memory download_all_fail "example_cfg\<lparr>ChunkSize := 2 ^ 50\<rparr>"]
  from t1 hyp obtain e fx where
    ret: "runDownload example_memory download_all_fail example_cfg =
      Some (zero_SpeedMetrics, Some e, fx)"
    and "\<exists>i \<in> set (workers_of example_cfg). \<exists>n rest.
      stream download_all_fail i = Body ((n, Some e) # rest)"
    by blast
  then have "e = reset" by (auto simp: w s)
  with ret have 1: "\<exists>fx. runDownload example_memory download_all_fail example_cfg =
         Some (zero_SpeedMetrics, Some reset, fx)" by blast
  have "runDownload example_memory download_nothing example_cfg \<noteq> None"
    using t2 c by (simp add: w download_nothing_def)
  then obtain m' err' fx' where
    ret': "runDownload example_memory download_nothing example_cfg = Some (m', err', fx')"
    by (cases "runDownload example_memory download_nothing example_cfg") auto
  with t2 n have "m' = zero_SpeedMetrics \<and> err' = Some (ErrorString ''download returned no data'')"
    by blast
  with ret' have 2: "\<exists>fx. runDownload example_memory download_nothing example_cfg =
         Some (zero_SpeedMetrics, Some (ErrorString ''download returned no data''), fx)"
    by blast
  have 3: "runDownload example_memory download_all_fail (example_cfg\<lparr>ChunkSize := 2 ^ 50\<rparr>) = None"
  proof -
    have "\<not> (\<forall>i \<in> set (workers_of (example_cfg\<lparr>ChunkSize := 2 ^ 50\<rparr>)).
        \<forall>reads. stream download_all_fail i = Body reads \<longrightarrow>
          makeslice example_memory 1 (ChunkSize (example_cfg\<lparr>ChunkSize := 2 ^ 50\<rparr>)) \<and>
          body_ends reads)"
      using big by (simp add: wb s)
    with t3 [THEN conjunct2, THEN conjunct1] show ?thesis by blast
  qed
  show ?thesis
    using w c s r f n 1 2 big 3 by blast
qed

text \<open>
  Claim C2. In the upload phase a worker whose request ends with a deadline-exceeded
  or an explicit-cancellation error records no fatal error, and every byte its random
  byte source has generated is in the shared total. When every worker's request either
  succeeds or ends so, the phase returns: with the NoData error when the total is zero,
  and otherwise successfully, with the total, the elapsed time and the Mbps computed
  from the two. In general a captured fatal error comes first, and NoData is returned
  only with no fatal error and a zero total. The total is the int64 counter; below
  \<open>2 ^ 63\<close> bytes it is the number of bytes generated, and it is zero only when no
  byte was generated.
\<close>

theorem runUpload_expected_cancellation:
  "(\<forall>m err fx. runUpload env cfg = Some (m, err, fx) \<longrightarrow>
      (upload_fatals env cfg \<noteq> [] \<longrightarrow>
         m = zero_SpeedMetrics \<and> (\<exists>e \<in> set (upload_fatals env cfg). err = Some e))
    \<and> (upload_fatals env cfg = [] \<and> (of_nat (upload_total env cfg) :: int64) = 0 \<longrightarrow>
         m = zero_SpeedMetrics \<and> err = Some (ErrorString ''upload sent no data''))
    \<and> (upload_fatals env cfg = [] \<and> (of_nat (upload_total env cfg) :: int64) \<noteq> 0 \<longrightarrow>
         err = None \<and>
         m = \<lparr>SpeedMetrics.Mbps = bytesToMbps (of_nat (upload_total env cfg)) (elapsed env),
              Bytes = of_nat (upload_total env cfg), Duration = elapsed env\<rparr>))
   \<and> (0 \<le> sint (ChunkSize cfg) \<longrightarrow> runUpload env cfg \<noteq> None)
   \<and> (0 \<le> sint (ChunkSize cfg) \<and>
       (\<forall>i \<in> set (workers_of cfg). \<exists>calls res. stream env i = UploadDo calls res \<and>
           (\<forall>e. res = Some e \<longrightarrow> errors_Is e DeadlineExceeded \<or> errors_Is e Canceled)) \<longrightarrow>
        upload_fatals env cfg = [] \<and>
        upload_total env cfg =
          sum_list (map (\<lambda>i. case stream env i of UploadDo calls res \<Rightarrow> generated (ChunkSize cfg) calls
                              | UploadRequestFails e \<Rightarrow> 0) (workers_of cfg)) \<and>
        (\<exists>m err fx. runUpload env cfg = Some (m, err, fx) \<and>
           (if (of_nat (upload_total env cfg) :: int64) = 0
            then m = zero_SpeedMetrics \<and> err = Some (ErrorString ''upload sent no data'')
            else err = None \<and>
              m = \<lparr>SpeedMetrics.Mbps = bytesToMbps (of_nat (upload_total env cfg)) (elapsed env),
                   Bytes = of_nat (upload_total env cfg), Duration = elapsed env\<rparr>)))
   \<and> (upload_total env cfg < 2 ^ 63 \<longrightarrow>
        sint (of_nat (upload_total env cfg) :: int64) = int (upload_total env cfg) \<and>
        ((of_nat (upload_total env cfg) :: int64) = 0 \<longleftrightarrow> upload_total env cfg = 0))"
proof (intro conjI allI impI)
  fix m err fx
  assume ret: "runUpload env cfg = Some (m, err, fx)"
  from runUpload_Some [OF ret] obtain r where
    r1: "upload_fatals env cfg = [] \<longrightarrow> r = None"
    and r2: "upload_fatals env cfg \<noteq> [] \<longrightarrow> (\<exists>e \<in> set (upload_fatals env cfg). r = Some e)"
    and r3: "(m, err) =
         (if r \<noteq> None then (zero_SpeedMetrics, r)
          else if (of_nat (upload_total env cfg) :: int64) = 0
          then (zero_SpeedMetrics, Some (ErrorString ''upload sent no data''))
          else (\<lparr>SpeedMetrics.Mbps = bytesToMbps (of_nat (upload_total env cfg)) (elapsed env),
                 Bytes = of_nat (upload_total env cfg), Duration = elapsed env\<rparr>, None))"
    by blast
  {
    assume "upload_fatals env cfg \<noteq> []"
    with r2 obtain e where e: "e \<in> set (upload_fatals env cfg)" "r = Some e" by blast
    with r3 show "m = zero_SpeedMetrics" by simp
    from e r3 show "\<exists>e \<in> set (upload_fatals env cfg). err = Some e" by simp
  }
  {
    assume "upload_fatals env cfg = [] \<and> (of_nat (upload_total env cfg) :: int64) = 0"
    with r1 r3 show "m = zero_SpeedMetrics"
      and "err = Some (ErrorString ''upload sent no data'')" by simp_all
  }
  {
    assume "upload_fatals env cfg = [] \<and> (of_nat (upload_total env cfg) :: int64) \<noteq> 0"
    with r1 r3 show "err = None"
      and "m = \<lparr>SpeedMetrics.Mbps = bytesToMbps (of_nat (upload_total env cfg)) (elapsed env),
              Bytes = of_nat (upload_total env cfg), Duration = elapsed env\<rparr>" by simp_all
  }
next
  assume "0 \<le> sint (ChunkSize cfg)"
  then show "runUpload env cfg \<noteq> None"
    by (simp add: runUpload_None upload_worker_total)
next
  assume a: "0 \<le> sint (ChunkSize cfg) \<and>
       (\<forall>i \<in> set (workers_of cfg). \<exists>calls res. stream env i = UploadDo calls res \<and>
           (\<forall>e. res = Some e \<longrightarrow> errors_Is e DeadlineExceeded \<or> errors_Is e Canceled))"
  have nf: "upload_fatal (stream env i) = None" if "i \<in> set (workers_of cfg)" for i
  proof -
    from a that obtain calls res where s: "stream env i = UploadDo calls res"
      and c: "\<forall>e. res = Some e \<longrightarrow> errors_Is e DeadlineExceeded \<or> errors_Is e Canceled"
      by blast
    show ?thesis
      using c by (cases res) (simp_all add: s expected_cancellation_def)
  qed
  then show f: "upload_fatals env cfg = []"
    unfolding upload_fatals_def map_filter_empty by blast
  have "upload_bytes (ChunkSize cfg) (stream env i) =
      (case stream env i of UploadDo calls res \<Rightarrow> generated (ChunkSize cfg) calls
                              | UploadRequestFails e \<Rightarrow> 0)" for i
    by (cases "stream env i") simp_all
  then show "upload_total env cfg =
          sum_list (map (\<lambda>i. case stream env i of UploadDo calls res \<Rightarrow> generated (ChunkSize cfg) calls
                              | UploadRequestFails e \<Rightarrow> 0) (workers_of cfg))"
    by (simp add: upload_total_def)
  from a have "runUpload env cfg \<noteq> None"
    by (simp add: runUpload_None upload_worker_total)
  then obtain m err fx where ret: "runUpload env cfg = Some (m, err, fx)"
    by (cases "runUpload env cfg") auto
  from runUpload_Some [OF ret] f have "(m, err) =
         (if (of_nat (upload_total env cfg) :: int64) = 0
          then (zero_SpeedMetrics, Some (ErrorString ''upload sent no data''))
          else (\<lparr>SpeedMetrics.Mbps = bytesToMbps (of_nat (upload_total env cfg)) (elapsed env),
                 Bytes = of_nat (upload_total env cfg), Duration = elapsed env\<rparr>, None))"
    by auto
  with ret show "\<exists>m err fx. runUpload env cfg = Some (m, err, fx) \<and>
           (if (of_nat (upload_total env cfg) :: int64) = 0
            then m = zero_SpeedMetrics \<and> err = Some (ErrorString ''upload sent no data'')
            else err = None \<and>
              m = \<lparr>SpeedMetrics.Mbps = bytesToMbps (of_nat (upload_total env cfg)) (elapsed env),
                   Bytes = of_nat (upload_total env cfg), Duration = elapsed env\<rparr>)"
    by (cases "(of_nat (upload_total env cfg) :: int64) = 0") auto
next
  assume "upload_total env cfg < 2 ^ 63"
  then show "sint (of_nat (upload_total env cfg) :: int64) = int (upload_total env cfg)"
    and "(of_nat (upload_total env cfg) :: int64) = 0 \<longleftrightarrow> upload_total env cfg = 0"
    by (rule word_of_nat_small)+
qed

theorem runUpload_expected_cancellation_witness:
  "0 \<le> sint (ChunkSize example_cfg)
   \<and> workers_of example_cfg = [0, Suc 0]
   \<and> stream upload_deadline 0 =
       UploadDo [\<lparr>ctx_err = None, buf_len = 262144, rand_err = None\<rparr>,
                 \<lparr>ctx_err = None, buf_len = 237856, rand_err = None\<rparr>,
                 \<lparr>ctx_err = Some DeadlineExceeded, buf_len = 262144, rand_err = None\<rparr>]
         (Some (Wrapped ''Post'' DeadlineExceeded))
   \<and> stream upload_deadline (Suc 0) = UploadDo [] (Some (Wrapped ''Post'' Canceled))
   \<and> errors_Is (Wrapped ''Post'' DeadlineExceeded) DeadlineExceeded
   \<and> errors_Is (Wrapped ''Post'' Canceled) Canceled
   \<and> upload_fatals upload_deadline example_cfg = []
   \<and> upload_total upload_deadline example_cfg = 500000
   \<and> (\<exists>fx. runUpload upload_deadline example_cfg =
         Some (\<lparr>SpeedMetrics.Mbps = Fin 2, Bytes = 500000, Duration = 2000000000\<rparr>, None, fx))"
proof -
  have w: "workers_of example_cfg = [0, Suc 0]"
    by (simp add: workers_of_def example_cfg_def upt_two)
  have c: "0 \<le> sint (ChunkSize example_cfg)" by (simp add: example_cfg_def)
  have s: "stream upload_deadline 0 =
       UploadDo [\<lparr>ctx_err = None, buf_len = 262144, rand_err = None\<rparr>,
                 \<lparr>ctx_err = None, buf_len = 237856, rand_err = None\<rparr>,
                 \<lparr>ctx_err = Some DeadlineExceeded, buf_len = 262144, rand_err = None\<rparr>]
         (Some (Wrapped ''Post'' DeadlineExceeded))"
    "stream upload_deadline (Suc 0) = UploadDo [] (Some (Wrapped ''Post'' Canceled))"
    by (simp_all add: upload_deadline_def)
  have e: "errors_Is (Wrapped ''Post'' DeadlineExceeded) DeadlineExceeded"
    "errors_Is (Wrapped ''Post'' Canceled) Canceled" by simp_all
  have hyp: "0 \<le> sint (ChunkSize example_cfg) \<and>
       (\<forall>i \<in> set (workers_of example_cfg). \<exists>calls res. stream upload_deadline i = UploadDo calls res \<and>
           (\<forall>e. res = Some e \<longrightarrow> errors_Is e DeadlineExceeded \<or> errors_Is e Canceled))"
    using c by (simp add: w s)
  have cs: "ChunkSize example_cfg = 262144" by (simp add: example_cfg_def)
  have t: "upload_total upload_deadline example_cfg = 500000"
    by (simp add: upload_total_def w s cs)
  from runUpload_expected_cancellation [of upload_deadline example_cfg] hyp
  have f: "upload_fatals upload_deadline example_cfg = []" by blast
  show ?thesis
    using w c s e f t upload_deadline_run by blast
qed

subsection \<open>The orchestrator\<close>

lemma requests_simps:
  "requests [] = []"
  "requests (HttpGet u # fx) = HttpGet u # requests fx"
  "requests (HttpPost u # fx) = HttpPost u # requests fx"
  "requests (Sleep d # fx) = requests fx"
  "requests (Deliver v # fx) = requests fx"
  by (simp_all add: requests_def)

lemma requests_append: "requests (xs @ ys) = requests xs @ requests ys"
  by (simp add: requests_def)

lemma requests_reportProgress: "requests (reportProgress cfg phase a b c) = []"
  by (simp add: requests_def reportProgress_def Let_def)

lemma requests_concat_reportProgress:
  "requests (concat (map (\<lambda>d. reportProgress cfg phase (f d) (g d) (h d)) ds)) = []"
  by (induction ds) (simp_all add: requests_append requests_reportProgress requests_simps)

lemma ping_loop_requests:
  assumes "set (requests fx) \<subseteq> {HttpGet (BaseURL cfg @ ''/ping'')}"
    and "ping_loop net cfg i results fx = (results', err, fx')"
  shows "set (requests fx') \<subseteq> {HttpGet (BaseURL cfg @ ''/ping'')}"
  using assms
proof (induction net cfg i results fx rule: ping_loop.induct)
  case (1 net cfg i results fx)
  show ?case
  proof (cases "sint i < sint (PingCount cfg)")
    case False
    with "1.prems" show ?thesis by (simp add: ping_loop.simps)
  next
    case True
    show ?thesis
    proof (cases "get_err (net (nat (sint i)))")
      case (Some e)
      with True "1.prems"(2) have "fx' = fx @ [HttpGet (BaseURL cfg @ ''/ping'')]"
        by (simp add: ping_loop.simps [of net cfg i] Let_def)
      with "1.prems"(1) show ?thesis by (simp add: requests_append requests_simps)
    next
      case None
      define fx2 where "fx2 = (fx @ [HttpGet (BaseURL cfg @ ''/ping'')]) @
          reportProgress cfg ''ping''
            (f64_mul (f64_div (float64 (i + 1)) (float64 (PingCount cfg))) (Fin 100))
            (Fin 0) (float64 (Milliseconds (since_report (net (nat (sint i)))))) @
          (if sint i < sint (PingCount cfg - 1) then [Sleep (150 * Millisecond)] else [])"
      have "requests fx2 = requests fx @ [HttpGet (BaseURL cfg @ ''/ping'')]"
        by (simp add: fx2_def requests_append requests_reportProgress requests_simps)
      then have r: "set (requests fx2) \<subseteq> {HttpGet (BaseURL cfg @ ''/ping'')}"
        using "1.prems"(1) by simp
      have lp: "ping_loop net cfg (i + 1) (results @ [since_sample (net (nat (sint i)))]) fx2 =
          (results', err, fx')"
        using True None "1.prems"(2)
        by (simp add: ping_loop.simps [of net cfg i] Let_def fx2_def)
      note ih = "1.IH" [OF True refl refl None, folded fx2_def]
      from ih [OF r lp] show ?thesis .
    qed
  qed
qed

lemma runPing_requests:
  assumes "runPing mem net cfg = Some (p, err, fx)"
  shows "set (requests fx) \<subseteq> {HttpGet (BaseURL cfg @ ''/ping'')}"
proof -
  obtain results e fx' where l: "ping_loop net cfg 0 [] [] = (results, e, fx')"
    by (cases "ping_loop net cfg 0 [] []") auto
  have "set (requests fx') \<subseteq> {HttpGet (BaseURL cfg @ ''/ping'')}"
    using _ l by (rule ping_loop_requests) (simp add: requests_simps)
  moreover from assms l have "fx = fx'"
    by (auto simp: runPing_def Let_def split: if_splits option.splits)
  ultimately show ?thesis by simp
qed


lemma run_workers_requests:
  assumes "\<forall>a \<in> set (concat ws). \<forall>e. request a = Some e \<longrightarrow> e = r"
    and "\<And>c d. requests (sample c d) = []"
    and "set (requests (effects s)) \<subseteq> {r}"
  shows "set (requests (effects (run_workers sample sched ws s))) \<subseteq> {r}"
proof (rule run_workers_invariant [where P = "\<lambda>s. set (requests (effects s)) \<subseteq> {r}"])
  show "set (requests (effects s)) \<subseteq> {r}" by (rule assms(3))
  show "set (requests (effects (perform a s))) \<subseteq> {r}"
    if "a \<in> set (concat ws)" "set (requests (effects s)) \<subseteq> {r}" for a s
  proof (cases a)
    case (Effect e)
    with that(1) assms(1) have "e = r" by auto
    moreover have "set (requests [r]) \<subseteq> {r}" by (simp add: requests_def)
    ultimately show ?thesis
      using that(2) Effect by (simp add: requests_append)
  next
    case (AtomicAddInt64 n)
    with that(2) show ?thesis by simp
  next
    case (SetRunErr x)
    with that(2) show ?thesis by (simp add: setRunErr_def)
  qed
  show "set (requests (effects (s\<lparr>effects := effects s @ sample (totalBytes s) d\<rparr>))) \<subseteq> {r}"
    if "set (requests (effects s)) \<subseteq> {r}" for d s
    using that by (simp add: requests_append assms(2))
qed

lemma runDownload_requests:
  assumes "runDownload mem env cfg = Some (m, err, fx)"
  shows "set (requests fx)
    \<subseteq> {HttpGet (BaseURL cfg @ ''/download?size='' @ format_d (DownloadMB cfg * 1024 * 1024))}"
proof -
  define psb where "psb = DownloadMB cfg * 1024 * 1024"
  define sample where "sample = (\<lambda>current since.
            reportProgress cfg ''download'' (percentDone current (psb * Streams cfg))
              (bytesToMbps current since) (Fin 0))"
  from assms obtain ws where
    ws: "those (spawn (Streams cfg) (\<lambda>i. download_worker mem cfg psb (stream env i))) = Some ws"
    by (auto simp: runDownload_def Let_def psb_def split: option.splits)
  define s where "s = run_workers sample (schedule env) ws initial_shared"
  define fx' where "fx' = effects s @
        reportProgress cfg ''download'' (Fin 100) (bytesToMbps (totalBytes s) (elapsed env)) (Fin 0) @
        concat (map (sample (totalBytes s)) (late_ticks env))"
  have "runDownload mem env cfg =
        (if runErr s \<noteq> None then Some (zero_SpeedMetrics, runErr s, fx')
         else if totalBytes s = 0
         then Some (zero_SpeedMetrics, Some (ErrorString ''download returned no data''), fx')
         else Some (\<lparr>SpeedMetrics.Mbps = bytesToMbps (totalBytes s) (elapsed env),
                 Bytes = totalBytes s, Duration = elapsed env\<rparr>, None, fx'))"
    using ws unfolding runDownload_def Let_def s_def fx'_def sample_def psb_def by simp
  with assms have "Some (m, err, fx) =
        (if runErr s \<noteq> None then Some (zero_SpeedMetrics, runErr s, fx')
         else if totalBytes s = 0
         then Some (zero_SpeedMetrics, Some (ErrorString ''download returned no data''), fx')
         else Some (\<lparr>SpeedMetrics.Mbps = bytesToMbps (totalBytes s) (elapsed env),
                 Bytes = totalBytes s, Duration = elapsed env\<rparr>, None, fx'))"
    by simp
  then have fx: "fx = fx'"
    by (cases "runErr s = None"; cases "totalBytes s = 0") simp_all
  have smp: "requests (sample c d) = []" for c d
    by (simp add: sample_def requests_reportProgress)
  have "requests (concat (map (sample (totalBytes s)) (late_ticks env))) = []"
    unfolding sample_def by (rule requests_concat_reportProgress)
  then have "requests fx' = requests (effects s)"
    by (simp add: fx'_def requests_append requests_reportProgress)
  moreover have "set (requests (effects s)) \<subseteq> {HttpGet (BaseURL cfg @ ''/download?size='' @ format_d psb)}"
    unfolding s_def
  proof (rule run_workers_requests
      [where r = "HttpGet (BaseURL cfg @ ''/download?size='' @ format_d psb)"])
    show "\<forall>a \<in> set (concat ws). \<forall>e. request a = Some e \<longrightarrow>
        e = HttpGet (BaseURL cfg @ ''/download?size='' @ format_d psb)"
      by (rule download_phase_workers(3) [OF ws])
    show "requests (sample c d) = []" for c d by (rule smp)
    show "set (requests (effects initial_shared))
        \<subseteq> {HttpGet (BaseURL cfg @ ''/download?size='' @ format_d psb)}"
      by (simp add: initial_slot requests_simps)
  qed
  ultimately show ?thesis by (simp add: fx psb_def)
qed

lemma runUpload_requests:
  assumes "runUpload env cfg = Some (m, err, fx)"
  shows "set (requests fx) \<subseteq> {HttpPost (BaseURL cfg @ ''/upload'')}"
proof -
  define sample where "sample = (\<lambda>current since.
            reportProgress cfg ''upload'' (percentElapsed since (ClientConfig.Duration cfg))
              (bytesToMbps current since) (Fin 0))"
  from assms obtain ws where
    ws: "those (spawn (Streams cfg) (\<lambda>i. upload_worker cfg (stream env i))) = Some ws"
    by (auto simp: runUpload_def Let_def split: option.splits)
  define s where "s = run_workers sample (schedule env) ws initial_shared"
  define fx' where "fx' = effects s @
        reportProgress cfg ''upload'' (Fin 100) (bytesToMbps (totalBytes s) (elapsed env)) (Fin 0) @
        concat (map (sample (totalBytes s)) (late_ticks env))"
  have "runUpload env cfg =
        (if runErr s \<noteq> None then Some (zero_SpeedMetrics, runErr s, fx')
         else if totalBytes s = 0
         then Some (zero_SpeedMetrics, Some (ErrorString ''upload sent no data''), fx')
         else Some (\<lparr>SpeedMetrics.Mbps = bytesToMbps (totalBytes s) (elapsed env),
                 Bytes = totalBytes s, Duration = elapsed env\<rparr>, None, fx'))"
    using ws unfolding runUpload_def Let_def s_def fx'_def sample_def by simp
  with assms have "Some (m, err, fx) =
        (if runErr s \<noteq> None then Some (zero_SpeedMetrics, runErr s, fx')
         else if totalBytes s = 0
         then Some (zero_SpeedMetrics, Some (ErrorString ''upload sent no data''), fx')
         else Some (\<lparr>SpeedMetrics.Mbps = bytesToMbps (totalBytes s) (elapsed env),
                 Bytes = totalBytes s, Duration = elapsed env\<rparr>, None, fx'))"
    by simp
  then have fx: "fx = fx'"
    by (cases "runErr s = None"; cases "totalBytes s = 0") simp_all
  have smp: "requests (sample c d) = []" for c d
    by (simp add: sample_def requests_reportProgress)
  have "requests (concat (map (sample (totalBytes s)) (late_ticks env))) = []"
    unfolding sample_def by (rule requests_concat_reportProgress)
  then have "requests fx' = requests (effects s)"
    by (simp add: fx'_def requests_append requests_reportProgress)
  moreover have "set (requests (effects s)) \<subseteq> {HttpPost (BaseURL cfg @ ''/upload'')}"
    unfolding s_def
  proof (rule run_workers_requests [where r = "HttpPost (BaseURL cfg @ ''/upload'')"])
    show "\<forall>a \<in> set (concat ws). \<forall>e. request a = Some e \<longrightarrow>
        e = HttpPost (BaseURL cfg @ ''/upload'')"
      by (rule upload_phase_workers(3) [OF ws])
    show "requests (sample c d) = []" for c d by (rule smp)
    show "set (requests (effects initial_shared)) \<subseteq> {HttpPost (BaseURL cfg @ ''/upload'')}"
      by (simp add: initial_slot requests_simps)
  qed
  ultimately show ?thesis by (simp add: fx)
qed


lemma RunClient_cases:
  assumes "RunClient w cfg0 = Some ((res, err), fx)"
  shows "\<exists>p perr fx1.
     runPing (memory w) (ping_net w) (normalizeClientConfig cfg0) = Some (p, perr, fx1) \<and>
     (case perr of
        Some e \<Rightarrow> res = zero_Result \<and> err = Some e \<and> fx = fx1
      | None \<Rightarrow>
          (\<exists>d derr fx2.
             runDownload (memory w) (download_net w) (normalizeClientConfig cfg0) = Some (d, derr, fx2) \<and>
             (case derr of
                Some e \<Rightarrow> res = zero_Result \<and> err = Some e \<and> fx = fx1 @ fx2
              | None \<Rightarrow>
                  (\<exists>u uerr fx3.
                     runUpload (upload_net w) (normalizeClientConfig cfg0) = Some (u, uerr, fx3) \<and>
                     fx = fx1 @ fx2 @ fx3 \<and>
                     (case uerr of
                        Some e \<Rightarrow> res = zero_Result \<and> err = Some e
                      | None \<Rightarrow> res = \<lparr>Ping = p, Download = d, Upload = u\<rparr> \<and> err = None)))))"
proof -
  define cfg where "cfg = normalizeClientConfig cfg0"
  from assms obtain p perr fx1 where p: "runPing (memory w) (ping_net w) cfg = Some (p, perr, fx1)"
    by (cases "runPing (memory w) (ping_net w) cfg") (auto simp: RunClient_def Let_def cfg_def)
  show ?thesis
  proof (cases perr)
    case (Some e)
    with assms p show ?thesis
      by (auto simp: RunClient_def Let_def cfg_def)
  next
    case None
    note pn = None
    from assms p pn obtain d derr fx2 where
      d: "runDownload (memory w) (download_net w) cfg = Some (d, derr, fx2)"
      by (cases "runDownload (memory w) (download_net w) cfg") (auto simp: RunClient_def Let_def cfg_def)
    show ?thesis
    proof (cases derr)
      case (Some e)
      with assms p pn d show ?thesis
        by (auto simp: RunClient_def Let_def cfg_def)
    next
      case None
      note dn = None
      from assms p pn d dn obtain u uerr fx3 where
        u: "runUpload (upload_net w) cfg = Some (u, uerr, fx3)"
        by (cases "runUpload (upload_net w) cfg") (auto simp: RunClient_def Let_def cfg_def)
      show ?thesis
      proof (cases uerr)
        case (Some e)
        with assms p pn d dn u show ?thesis
          by (auto simp: RunClient_def Let_def cfg_def)
      next
        case None
        with assms p pn d dn u show ?thesis
          by (auto simp: RunClient_def Let_def cfg_def)
      qed
    qed
  qed
qed

subsection \<open>Runs of the whole client\<close>

lemma normalize_example: "normalizeClientConfig example_cfg = example_cfg"
  by (simp add: normalizeClientConfig_def example_cfg_def TrimRight_def Let_def)

lemma format_d_example: "format_d 1048576 = ''1048576''"
  by (simp add: format_d_def digits.simps)

lemma ping_second_fails_run:
  "runPing example_memory ping_second_fails example_cfg =
     Some (zero_PingMetrics, Some reset,
       [HttpGet ''http://h/ping'', Sleep 150000000, HttpGet ''http://h/ping''])"
  by (simp add: runPing_def ping_loop.simps ping_second_fails_def example_cfg_def
      reportProgress_def Let_def go_eval)

lemma ping_three_run:
  "runPing example_memory ping_three example_cfg =
     Some (\<lparr>Min_ping = 10000000, Avg = 20000000, P95 = 30000000\<rparr>, None,
       [HttpGet ''http://h/ping'', Sleep 150000000, HttpGet ''http://h/ping'',
        Sleep 150000000, HttpGet ''http://h/ping''])"
  by (simp add: runPing_def ping_loop.simps ping_three_def example_cfg_def
      reportProgress_def Millisecond_def Let_def avgDuration_def percentileDuration_def
      f64_eval go_eval round_eval)


lemma download_all_fail_effects:
  "runDownload example_memory download_all_fail example_cfg =
     Some (zero_SpeedMetrics, Some reset,
       [HttpGet ''http://h/download?size=1048576'', HttpGet ''http://h/download?size=1048576''])"
  by (simp add: runDownload_def download_all_fail_def example_cfg_def reset_def run_eval
      format_d_example)

lemma download_two_streams_effects:
  "runDownload example_memory download_two_streams example_cfg =
     Some (\<lparr>SpeedMetrics.Mbps = Fin 16, Bytes = 2000000, Duration = 1000000000\<rparr>, None,
       [HttpGet ''http://h/download?size=1048576'', HttpGet ''http://h/download?size=1048576''])"
  by (simp add: runDownload_def download_two_streams_def example_cfg_def run_eval
      bytesToMbps_def f64_eval go_eval round_eval format_d_example)

lemma upload_deadline_effects:
  "runUpload upload_deadline example_cfg =
     Some (\<lparr>SpeedMetrics.Mbps = Fin 2, Bytes = 500000, Duration = 2000000000\<rparr>, None,
       [HttpPost ''http://h/upload'', HttpPost ''http://h/upload''])"
  by (simp add: runUpload_def upload_deadline_def example_cfg_def run_eval
      bytesToMbps_def f64_eval go_eval round_eval)

lemma world_ping_fails_run:
  "RunClient world_ping_fails example_cfg =
     Some ((zero_Result, Some reset),
       [HttpGet ''http://h/ping'', Sleep 150000000, HttpGet ''http://h/ping''])"
  by (simp add: RunClient_def normalize_example world_ping_fails_def ping_second_fails_run)

lemma world_download_fails_run:
  "RunClient world_download_fails example_cfg =
     Some ((zero_Result, Some reset),
       [HttpGet ''http://h/ping'', Sleep 150000000, HttpGet ''http://h/ping'',
        Sleep 150000000, HttpGet ''http://h/ping'',
        HttpGet ''http://h/download?size=1048576'', HttpGet ''http://h/download?size=1048576''])"
  by (simp add: RunClient_def normalize_example world_download_fails_def ping_three_run
      download_all_fail_effects)

lemma world_ok_run:
  "RunClient world_ok example_cfg =
     Some ((\<lparr>Ping = \<lparr>Min_ping = 10000000, Avg = 20000000, P95 = 30000000\<rparr>,
             Download = \<lparr>SpeedMetrics.Mbps = Fin 16, Bytes = 2000000, Duration = 1000000000\<rparr>,
             Upload = \<lparr>SpeedMetrics.Mbps = Fin 2, Bytes = 500000, Duration = 2000000000\<rparr>\<rparr>,
            None),
       [HttpGet ''http://h/ping'', Sleep 150000000, HttpGet ''http://h/ping'',
        Sleep 150000000, HttpGet ''http://h/ping'',
        HttpGet ''http://h/download?size=1048576'', HttpGet ''http://h/download?size=1048576'',
        HttpPost ''http://h/upload'', HttpPost ''http://h/upload''])"
  by (simp add: RunClient_def normalize_example world_ok_def ping_three_run
      download_two_streams_effects upload_deadline_effects)

lemma RunClient_success:
  assumes "RunClient w cfg0 = Some ((res, None), fx)"
  shows "\<exists>p fx1 d fx2 u fx3.
     runPing (memory w) (ping_net w) (normalizeClientConfig cfg0) = Some (p, None, fx1) \<and>
     runDownload (memory w) (download_net w) (normalizeClientConfig cfg0) = Some (d, None, fx2) \<and>
     runUpload (upload_net w) (normalizeClientConfig cfg0) = Some (u, None, fx3) \<and>
     res = \<lparr>Ping = p, Download = d, Upload = u\<rparr> \<and> fx = fx1 @ fx2 @ fx3"
  using RunClient_cases [OF assms] by (auto split: option.splits)

text \<open>
  Claim C10. Whenever \<open>RunClient\<close> returns without an error, the byte counts of the
  download and of the upload metrics are the phases' counters, and neither is zero. Each
  is strictly positive as long as the phase counted fewer than \<open>2 ^ 63\<close> bytes, the
  range of the \<open>int64\<close> counter.
\<close>

theorem RunClient_success_bytes_positive:
  assumes "RunClient w cfg0 = Some ((res, None), fx)"
  shows "Bytes (Download res) \<noteq> 0 \<and> Bytes (Upload res) \<noteq> 0
    \<and> Bytes (Download res) = of_nat (download_total (download_net w) (normalizeClientConfig cfg0))
    \<and> Bytes (Upload res) = of_nat (upload_total (upload_net w) (normalizeClientConfig cfg0))
    \<and> (download_total (download_net w) (normalizeClientConfig cfg0) < 2 ^ 63 \<longrightarrow>
         0 < sint (Bytes (Download res)))
    \<and> (upload_total (upload_net w) (normalizeClientConfig cfg0) < 2 ^ 63 \<longrightarrow>
         0 < sint (Bytes (Upload res)))"
proof -
  define cfg where "cfg = normalizeClientConfig cfg0"
  from RunClient_success [OF assms] obtain p fx1 d fx2 u fx3 where
    d: "runDownload (memory w) (download_net w) cfg = Some (d, None, fx2)"
    and u: "runUpload (upload_net w) cfg = Some (u, None, fx3)"
    and r: "res = \<lparr>Ping = p, Download = d, Upload = u\<rparr>"
    unfolding cfg_def by blast
  let ?dt = "download_total (download_net w) cfg"
  let ?ut = "upload_total (upload_net w) cfg"
  from runDownload_Some [OF d] obtain rd where
    "(d, None) =
         (if rd \<noteq> None then (zero_SpeedMetrics, rd)
          else if (of_nat ?dt :: int64) = 0
          then (zero_SpeedMetrics, Some (ErrorString ''download returned no data''))
          else (\<lparr>SpeedMetrics.Mbps = bytesToMbps (of_nat ?dt) (elapsed (download_net w)),
                 Bytes = of_nat ?dt, Duration = elapsed (download_net w)\<rparr>, None))"
    by blast
  then have db: "Bytes d = of_nat ?dt" "(of_nat ?dt :: int64) \<noteq> 0"
    by (cases "rd = None"; cases "(of_nat ?dt :: int64) = 0"; simp)+
  from runUpload_Some [OF u] obtain ru where
    "(u, None) =
         (if ru \<noteq> None then (zero_SpeedMetrics, ru)
          else if (of_nat ?ut :: int64) = 0
          then (zero_SpeedMetrics, Some (ErrorString ''upload sent no data''))
          else (\<lparr>SpeedMetrics.Mbps = bytesToMbps (of_nat ?ut) (elapsed (upload_net w)),
                 Bytes = of_nat ?ut, Duration = elapsed (upload_net w)\<rparr>, None))"
    by blast
  then have ub: "Bytes u = of_nat ?ut" "(of_nat ?ut :: int64) \<noteq> 0"
    by (cases "ru = None"; cases "(of_nat ?ut :: int64) = 0"; simp)+
  have pos: "0 < sint (of_nat n :: int64)" if "n < 2 ^ 63" "(of_nat n :: int64) \<noteq> 0" for n
  proof -
    from that word_of_nat_small [of n] have "sint (of_nat n :: int64) = int n" "n \<noteq> 0"
      by auto
    then show ?thesis by simp
  qed
  show ?thesis
    using db ub pos [of ?dt] pos [of ?ut] by (simp add: r cfg_def)
qed

theorem RunClient_success_bytes_positive_witness:
  "RunClient world_ok example_cfg =
     Some ((\<lparr>Ping = \<lparr>Min_ping = 10000000, Avg = 20000000, P95 = 30000000\<rparr>,
             Download = \<lparr>SpeedMetrics.Mbps = Fin 16, Bytes = 2000000, Duration = 1000000000\<rparr>,
             Upload = \<lparr>SpeedMetrics.Mbps = Fin 2, Bytes = 500000, Duration = 2000000000\<rparr>\<rparr>,
            None),
       [HttpGet ''http://h/ping'', Sleep 150000000, HttpGet ''http://h/ping'',
        Sleep 150000000, HttpGet ''http://h/ping'',
        HttpGet ''http://h/download?size=1048576'', HttpGet ''http://h/download?size=1048576'',
        HttpPost ''http://h/upload'', HttpPost ''http://h/upload''])
   \<and> download_total (download_net world_ok) (normalizeClientConfig example_cfg) = 2000000
   \<and> upload_total (upload_net world_ok) (normalizeClientConfig example_cfg) = 500000
   \<and> (2000000 :: nat) < 2 ^ 63 \<and> (500000 :: nat) < 2 ^ 63
   \<and> 0 < sint (2000000 :: int64) \<and> 0 < sint (500000 :: int64)"
proof -
  have w: "workers_of example_cfg = [0, Suc 0]"
    by (simp add: workers_of_def example_cfg_def upt_two)
  have cs: "ChunkSize example_cfg = 262144" by (simp add: example_cfg_def)
  have dt: "download_total (download_net world_ok) (normalizeClientConfig example_cfg) = 2000000"
    by (simp add: normalize_example world_ok_def download_total_def w download_two_streams_def)
  have ut: "upload_total (upload_net world_ok) (normalizeClientConfig example_cfg) = 500000"
    by (simp add: normalize_example world_ok_def upload_total_def w cs upload_deadline_def)
  from RunClient_success_bytes_positive [OF world_ok_run] dt ut
  have "0 < sint (2000000 :: int64) \<and> 0 < sint (500000 :: int64)"
    by simp
  with world_ok_run dt ut show ?thesis by simp
qed

text \<open>
  Claim C9. The workers' increments of the shared counter are steps of
  \<open>atomic.AddInt64\<close>, each indivisible. Under every schedule of the workers' steps and
  of the progress ticker, \<open>n\<close> workers that each add \<open>amount\<close> once leave the counter at
  its start plus \<open>n * amount\<close>; in general the counter ends at its start plus the sum
  of all the amounts added, and no other step of a worker changes it. The sums are those
  of the \<open>int64\<close> counter.
\<close>

theorem atomic_counter_exact:
  "totalBytes (run_workers sample sched (replicate n [AtomicAddInt64 amount]) s) =
     totalBytes s + of_nat n * amount
   \<and> totalBytes (run_workers sample sched ws s) = totalBytes s + added_all ws
   \<and> totalBytes (perform (AtomicAddInt64 k) s) = totalBytes s + k
   \<and> totalBytes (perform (SetRunErr x) s) = totalBytes s
   \<and> totalBytes (perform (Effect e) s) = totalBytes s"
proof -
  have "added_all (replicate n [AtomicAddInt64 amount]) = of_nat n * amount"
    by (induction n) (simp_all add: added_all_def algebra_simps)
  then show ?thesis
    by (simp add: totalBytes_run_workers setRunErr_def)
qed

subsection \<open>Rounding is monotone\<close>

lemma round_even_bounds: "\<lfloor>q\<rfloor> \<le> round_even q" "round_even q \<le> \<lfloor>q\<rfloor> + 1"
  unfolding round_even_def Let_def by auto

lemma round_even_mono:
  assumes "q1 \<le> q2"
  shows "round_even q1 \<le> round_even q2"
proof (cases "\<lfloor>q1\<rfloor> = \<lfloor>q2\<rfloor>")
  case True
  with assms have "q1 - of_int \<lfloor>q1\<rfloor> \<le> q2 - of_int \<lfloor>q2\<rfloor>" by simp
  then show ?thesis
    unfolding round_even_def Let_def using True by auto
next
  case False
  moreover have "\<lfloor>q1\<rfloor> \<le> \<lfloor>q2\<rfloor>" using assms by (rule floor_mono)
  ultimately have "\<lfloor>q1\<rfloor> + 1 \<le> \<lfloor>q2\<rfloor>" by simp
  with round_even_bounds(2) [of q1] round_even_bounds(1) [of q2] show ?thesis by linarith
qed

lemma ilog2_pow2: "ilog2 (2 powi k) = k"
proof -
  have p: "(0::real) < 2 powi k" by simp
  from ilog2_bounds [OF p]
  have lo: "(2::real) powi (ilog2 (2 powi k)) \<le> 2 powi k"
    and hi: "(2::real) powi k < 2 powi (ilog2 (2 powi k) + 1)" by simp_all
  have "\<not> k < ilog2 (2 powi k)"
  proof
    assume "k < ilog2 (2 powi k)"
    then have "(2::real) powi k < 2 powi (ilog2 (2 powi k))"
      by (intro power_int_strict_increasing) simp_all
    with lo show False by simp
  qed
  moreover have "\<not> ilog2 (2 powi k) + 1 \<le> k"
  proof
    assume "ilog2 (2 powi k) + 1 \<le> k"
    then have "(2::real) powi (ilog2 (2 powi k) + 1) \<le> 2 powi k"
      by (intro power_int_increasing) simp_all
    with hi show False by simp
  qed
  ultimately show ?thesis by simp
qed

lemma pow2_representable:
  assumes "- 1022 \<le> k" "k \<le> 1023"
  shows "round_pos (2 powi k) = Fin (2 powi k)"
proof -
  have e: "ulp_exp (2 powi k) = k - 52"
    using assms by (simp add: ulp_exp_def ilog2_pow2)
  have "(2::real) powi k * 2 powi (- (k - 52)) = 2 powi 52"
    using powi_split [of k "- (k - 52)"] by simp
  then have q: "(2::real) powi k * 2 powi (- (k - 52)) = of_int (2 ^ 52)"
    by (simp add: power_int_def)
  have m: "round_even ((2::real) powi k * 2 powi (- (k - 52))) = 2 ^ 52"
    unfolding q by (rule round_even_of_int)
  have "of_int (2 ^ 52) * (2::real) powi (k - 52) = 2 powi 52 * 2 powi (k - 52)"
    by (simp add: power_int_def)
  also have "\<dots> = 2 powi k"
    using powi_split [of 52 "k - 52"] by simp
  finally have v: "of_int (2 ^ 52) * (2::real) powi (k - 52) = 2 powi k" .
  show ?thesis
    unfolding round_pos_alt e ilog2_pow2 m using assms v by simp
qed

lemma round_pos_mono:
  assumes x: "0 < x" and xy: "x \<le> y"
  shows "f64_le (round_pos x) (round_pos y)"
proof -
  have y: "0 < y" using x xy by simp
  have il: "ilog2 x \<le> ilog2 y" using ilog2_mono [OF x xy] .
  define mx where "mx = round_even (x * 2 powi (- ulp_exp x))"
  define my where "my = round_even (y * 2 powi (- ulp_exp y))"
  show ?thesis
  proof (cases "ulp_exp x = ulp_exp y")
    case True
    have "x * 2 powi (- ulp_exp x) \<le> y * 2 powi (- ulp_exp y)"
      unfolding True using xy by (intro mult_right_mono) simp_all
    then have mm: "mx \<le> my" unfolding mx_def my_def by (rule round_even_mono)
    show ?thesis
    proof (cases "1024 \<le> ilog2 y \<or> (1023 \<le> ilog2 y \<and> 2 ^ 53 \<le> my)")
      case True
      then have "round_pos y = PInf" unfolding round_pos_alt my_def by simp
      with round_pos_cases [of x] show ?thesis by (auto simp: f64_le_def)
    next
      case False
      with il mm have nx: "\<not> (1024 \<le> ilog2 x \<or> (1023 \<le> ilog2 x \<and> 2 ^ 53 \<le> mx))"
        by auto
      have vx: "round_pos x = Fin (of_int mx * 2 powi (ulp_exp x))"
        using nx unfolding round_pos_alt mx_def by simp
      have vy: "round_pos y = Fin (of_int my * 2 powi (ulp_exp y))"
        using False unfolding round_pos_alt my_def by simp
      have "of_int mx * (2::real) powi (ulp_exp x) \<le> of_int my * 2 powi (ulp_exp y)"
        unfolding \<open>ulp_exp x = ulp_exp y\<close> using mm by (intro mult_right_mono) simp_all
      then show ?thesis by (simp add: vx vy)
    qed
  next
    case False
    with il have lt: "ilog2 x < ilog2 y" and n: "- 1022 < ilog2 y"
      by (auto simp: ulp_exp_def max_def split: if_splits)
    show ?thesis
    proof (cases "1024 \<le> ilog2 y")
      case True
      then have "round_pos y = PInf" unfolding round_pos_alt by simp
      with round_pos_cases [of x] show ?thesis by (auto simp: f64_le_def)
    next
      case False
      define c :: real where "c = 2 powi (ilog2 y)"
      have rc: "round_pos c = Fin c"
        unfolding c_def using n False by (intro pow2_representable) simp_all
      have c0: "0 < c" by (simp add: c_def)
      have "x < 2 powi (ilog2 x + 1)" using ilog2_bounds [OF x] by simp
      also have "(2::real) powi (ilog2 x + 1) \<le> c"
        unfolding c_def using lt by (intro power_int_increasing) simp_all
      finally have xc: "x \<le> c" by simp
      have cy: "c \<le> y" unfolding c_def using ilog2_bounds [OF y] by simp
      from round_pos_le [OF x xc rc] obtain a where a: "round_pos x = Fin a" "a \<le> c" by blast
      from round_pos_ge [OF c0 cy rc] a show ?thesis by (auto simp: f64_le_def)
    qed
  qed
qed

lemma f64_le_trans: "f64_le a b \<Longrightarrow> f64_le b c \<Longrightarrow> f64_le a c"
  by (cases a; cases b; cases c) (auto simp: f64_le_def)

lemma f64_le_neg_flip: "f64_le a b \<Longrightarrow> f64_le (f64_neg b) (f64_neg a)"
  by (cases a; cases b) (auto simp: f64_le_def)

lemma round_f64_mono:
  assumes "x \<le> y"
  shows "f64_le (round_f64 x) (round_f64 y)"
proof -
  consider "0 < x" | "y < 0" | "x \<le> 0" "0 \<le> y" by linarith
  then show ?thesis
  proof cases
    case 1
    with assms have "0 < y" by simp
    with 1 round_pos_mono [OF 1 assms] show ?thesis by (simp add: round_f64_def)
  next
    case 2
    with assms have x: "x < 0" by simp
    have "f64_le (round_pos (- y)) (round_pos (- x))"
      using 2 assms by (intro round_pos_mono) simp_all
    then have "f64_le (f64_neg (round_pos (- x))) (f64_neg (round_pos (- y)))"
      by (rule f64_le_neg_flip)
    with 2 x show ?thesis by (simp add: round_f64_def)
  next
    case 3
    have "f64_le (round_f64 x) (Fin 0)"
      using 3(1) by (intro round_f64_le representable_consts)
    moreover have "f64_le (Fin 0) (round_f64 y)"
      using 3(2) by (intro round_f64_ge representable_consts)
    ultimately show ?thesis by (rule f64_le_trans)
  qed
qed

lemma float64_mono:
  assumes "sint a \<le> sint b"
  shows "f64_le (float64 a) (float64 b)"
proof -
  from assms have "real_of_int (sint a) \<le> real_of_int (sint b)"
    by (simp only: of_int_le_iff)
  then show ?thesis unfolding float64_def by (rule round_f64_mono)
qed

lemma float64_neg:
  assumes "sint n < 0"
  shows "\<exists>y. float64 n = Fin y \<and> y \<le> - 1"
proof -
  from float64_finite [of n] obtain y where y: "float64 n = Fin y" by blast
  have r: "round_f64 (- 1) = Fin (- 1)" by (simp add: round_eval)
  from assms have "sint n \<le> - 1" by simp
  then have "real_of_int (sint n) \<le> real_of_int (- 1)" by (simp only: of_int_le_iff)
  then have "real_of_int (sint n) \<le> - 1" by (simp del: of_int_sint)
  then have "f64_le (float64 n) (Fin (- 1))"
    unfolding float64_def using r by (rule round_f64_le)
  with y show ?thesis by simp
qed

lemma ping_percent_range:
  assumes "0 < sint k" "sint k \<le> sint n"
  shows "\<exists>y. f64_mul (f64_div (float64 k) (float64 n)) (Fin 100) = Fin y \<and> 0 \<le> y \<and> y \<le> 100"
proof -
  from float64_pos [OF assms(1)] obtain a where a: "float64 k = Fin a" "1 \<le> a" by blast
  from float64_finite [of n] obtain b where b: "float64 n = Fin b" by blast
  from float64_mono [OF assms(2)] a b have ab: "a \<le> b" by simp
  with a have b1: "1 \<le> b" by simp
  have "0 \<le> a / b" "a / b \<le> 1" using a ab b1 by simp_all
  then obtain q where q: "round_f64 (a / b) = Fin q" "0 \<le> q" "q \<le> 1"
    using round_f64_between [of 0 "a / b" 1] representable_consts by blast
  have d: "f64_div (float64 k) (float64 n) = Fin q"
    using b1 by (simp add: a b f64_div_def q)
  have "0 \<le> q * 100" "q * 100 \<le> 100" using q by simp_all
  then obtain y where y: "round_f64 (q * 100) = Fin y" "0 \<le> y" "y \<le> 100"
    using round_f64_between [of 0 "q * 100" 100] representable_consts by blast
  show ?thesis
    using y by (simp add: d f64_mul_def)
qed

subsection \<open>The events of the ping phase\<close>

lemma word_of_nat_sint0:
  assumes "0 \<le> sint (n :: int64)"
  shows "of_nat (nat (sint n)) = n"
proof -
  have "(of_nat (nat (sint n)) :: int64) = word_of_int (int (nat (sint n)))"
    by simp
  also have "int (nat (sint n)) = sint n" using assms by simp
  finally show ?thesis by simp
qed

lemma sint_succ:
  assumes "sint (i :: int64) < sint (n :: int64)"
  shows "sint (i + 1) = sint i + 1"
proof -
  have "sint n < 2 ^ 63" using sint_lt [of n] by simp
  with assms have b: "sint i + 1 < 2 ^ 63" by simp
  have c: "- (2 ^ 63) \<le> sint i + 1" using sint_ge [of i] by simp
  have "sint (i + 1) = signed_take_bit 63 (sint i + 1)"
    by (simp add: sint_word_ariths)
  also have "\<dots> = sint i + 1"
    using b c by (simp add: signed_take_bit_int_eq_self)
  finally show ?thesis .
qed

lemma deliveries_simps:
  "deliveries [] = []"
  "deliveries (HttpGet u # fx) = deliveries fx"
  "deliveries (HttpPost u # fx) = deliveries fx"
  "deliveries (Sleep d # fx) = deliveries fx"
  "deliveries (Deliver v # fx) = v # deliveries fx"
  by (simp_all add: deliveries_def)

lemma deliveries_append: "deliveries (xs @ ys) = deliveries xs @ deliveries ys"
  by (simp add: deliveries_def map_filter_append)

lemma clamp_ms:
  "(if f64_lt (float64 m) (Fin 0) then Fin 0 else float64 m) =
   (if sint m < 0 then Fin 0 else float64 m)"
proof (cases "sint m < 0")
  case True
  from float64_neg [OF True] show ?thesis using True by auto
next
  case False
  then have "0 \<le> sint m" by simp
  from float64_nonneg [OF this] show ?thesis using False by auto
qed

lemma ping_report:
  assumes "0 \<le> sint i" "sint i < sint (PingCount cfg)"
  shows "deliveries (reportProgress cfg ''ping''
            (f64_mul (f64_div (float64 (i + 1)) (float64 (PingCount cfg))) (Fin 100))
            (Fin 0) (float64 (Milliseconds (since_report (net (nat (sint i))))))) =
         (if Progress cfg then [ping_event cfg net (nat (sint i))] else [])"
proof -
  have s: "sint (i + 1) = sint i + 1" using assms(2) by (rule sint_succ)
  have "0 < sint (i + 1)" "sint (i + 1) \<le> sint (PingCount cfg)"
    using assms by (simp_all add: s)
  from ping_percent_range [OF this] obtain y where
    y: "f64_mul (f64_div (float64 (i + 1)) (float64 (PingCount cfg))) (Fin 100) = Fin y"
      "0 \<le> y" "y \<le> 100" by blast
  have y': "f64_mul (f64_div (float64 (1 + i)) (float64 (PingCount cfg))) (Fin 100) = Fin y"
    using y(1) by (simp add: add.commute)
  show ?thesis
    using y(2,3) clamp_ms [of "Milliseconds (since_report (net (nat (sint i))))"]
    by (simp add: reportProgress_def ping_event_def Let_def deliveries_simps
        word_of_nat_sint0 [OF assms(1)] y' y(1))
qed

lemma ping_loop_deliveries:
  assumes "0 \<le> sint i"
    and "ping_loop net cfg i results fx = (results', err, fx')"
  shows "deliveries fx' = deliveries fx @
      (if Progress cfg
       then map (ping_event cfg net)
              (takeWhile (\<lambda>j. get_err (net j) = None)
                 [nat (sint i) ..< nat (sint (PingCount cfg))])
       else [])"
  using assms
proof (induction net cfg i results fx rule: ping_loop.induct)
  case (1 net cfg i results fx)
  show ?case
  proof (cases "sint i < sint (PingCount cfg)")
    case False
    then have "[nat (sint i) ..< nat (sint (PingCount cfg))] = []" by simp
    with False "1.prems"(2) show ?thesis by (simp add: ping_loop.simps)
  next
    case True
    then have u: "[nat (sint i) ..< nat (sint (PingCount cfg))] =
        nat (sint i) # [nat (sint i) + 1 ..< nat (sint (PingCount cfg))]"
      using "1.prems"(1) by (simp add: upt_conv_Cons)
    show ?thesis
    proof (cases "get_err (net (nat (sint i)))")
      case (Some e)
      with True "1.prems"(2) have "fx' = fx @ [HttpGet (BaseURL cfg @ ''/ping'')]"
        by (simp add: ping_loop.simps [of net cfg i] Let_def)
      with Some show ?thesis by (simp add: u deliveries_append deliveries_simps)
    next
      case None
      define fx2 where "fx2 = (fx @ [HttpGet (BaseURL cfg @ ''/ping'')]) @
          reportProgress cfg ''ping''
            (f64_mul (f64_div (float64 (i + 1)) (float64 (PingCount cfg))) (Fin 100))
            (Fin 0) (float64 (Milliseconds (since_report (net (nat (sint i)))))) @
          (if sint i < sint (PingCount cfg - 1) then [Sleep (150 * Millisecond)] else [])"
      have d2: "deliveries fx2 = deliveries fx @
          (if Progress cfg then [ping_event cfg net (nat (sint i))] else [])"
        using ping_report [OF "1.prems"(1) True, of net]
        by (simp add: fx2_def deliveries_append deliveries_simps)
      have s: "sint (i + 1) = sint i + 1" using True by (rule sint_succ)
      have i1: "0 \<le> sint (i + 1)" using "1.prems"(1) by (simp add: s)
      have n1: "nat (sint (i + 1)) = nat (sint i) + 1"
        using "1.prems"(1) by (simp add: s nat_add_distrib)
      have lp: "ping_loop net cfg (i + 1) (results @ [since_sample (net (nat (sint i)))]) fx2 =
          (results', err, fx')"
        using True None "1.prems"(2)
        by (simp add: ping_loop.simps [of net cfg i] Let_def fx2_def)
      note ih = "1.IH" [OF True refl refl None, folded fx2_def]
      from ih [OF i1 lp] show ?thesis
        using None by (simp add: d2 u n1)
    qed
  qed
qed




subsection \<open>No NaN reaches the progress reporter\<close>

lemma events_in_range_simps:
  "events_in_range []"
  "events_in_range (HttpGet u # fx) = events_in_range fx"
  "events_in_range (HttpPost u # fx) = events_in_range fx"
  "events_in_range (Sleep d # fx) = events_in_range fx"
  "events_in_range (Deliver v # fx) = (progress_in_range v \<and> events_in_range fx)"
  by (simp_all add: events_in_range_def deliveries_simps)

lemma events_in_range_append:
  "events_in_range (xs @ ys) = (events_in_range xs \<and> events_in_range ys)"
  by (simp add: events_in_range_def deliveries_append)

lemma events_in_range_concat:
  "(\<And>x. x \<in> set xs \<Longrightarrow> events_in_range (f x)) \<Longrightarrow> events_in_range (concat (map f xs))"
  by (induction xs) (simp_all add: events_in_range_simps events_in_range_append)

lemma reportProgress_in_range:
  assumes "a \<noteq> NaN" "b \<noteq> NaN" "c \<noteq> NaN"
  shows "events_in_range (reportProgress cfg phase a b c)"
proof (cases "Progress cfg")
  case False
  then show ?thesis by (simp add: reportProgress_def events_in_range_simps)
next
  case True
  from clamp_percent [OF assms(1)] clamp_low [OF assms(2)] clamp_low [OF assms(3)] True
  show ?thesis
    by (simp add: reportProgress_def events_in_range_simps progress_in_range_def Let_def)
qed

lemma f64_div_not_NaN: "a \<noteq> NaN \<Longrightarrow> y \<noteq> 0 \<Longrightarrow> f64_div a (Fin y) \<noteq> NaN"
  by (cases a) (simp_all add: f64_div_def f64_inf_def round_f64_not_NaN)

lemma f64_mul_not_NaN: "a \<noteq> NaN \<Longrightarrow> y \<noteq> 0 \<Longrightarrow> f64_mul a (Fin y) \<noteq> NaN"
  by (cases a) (simp_all add: f64_mul_def f64_inf_def round_f64_not_NaN)

lemma float64_not_NaN: "float64 n \<noteq> NaN"
  by (simp add: float64_def round_f64_not_NaN)

lemma more_representable:
  "round_f64 (2 ^ 64) = Fin (2 ^ 64)" "round_f64 (- (2 ^ 64)) = Fin (- (2 ^ 64))"
  "round_f64 (1 / 2 ^ 30) = Fin (1 / 2 ^ 30)"
  by (simp_all add: round_eval)

lemma Seconds_parts:
  "\<exists>a b. float64 (go_div d Second) = Fin a \<and> \<bar>a\<bar> \<le> 2 ^ 63 \<and>
      f64_div (float64 (go_mod d Second)) (Fin 1000000000) = Fin b \<and> \<bar>b\<bar> \<le> 2 ^ 63"
proof -
  from float64_finite [of "go_div d Second"] obtain a
    where a: "float64 (go_div d Second) = Fin a" "- (2 ^ 63) \<le> a" "a \<le> 2 ^ 63" by blast
  from float64_finite [of "go_mod d Second"] obtain r
    where r: "float64 (go_mod d Second) = Fin r" "- (2 ^ 63) \<le> r" "r \<le> 2 ^ 63" by blast
  have "- (2 ^ 63) \<le> r / 1000000000" "r / 1000000000 \<le> 2 ^ 63"
    using r(2,3) by (simp_all add: field_simps)
  then obtain b where b: "round_f64 (r / 1000000000) = Fin b" "- (2 ^ 63) \<le> b" "b \<le> 2 ^ 63"
    using round_f64_between [of "- (2 ^ 63)" "r / 1000000000" "2 ^ 63"] representable_consts
    by blast
  have "f64_div (float64 (go_mod d Second)) (Fin 1000000000) = Fin b"
    by (simp add: r(1) f64_div_def b(1))
  with a b show ?thesis by (auto simp: abs_le_iff)
qed

lemma Seconds_finite: "\<exists>y. Seconds d = Fin y"
proof -
  from Seconds_parts [of d] obtain a b where
    a: "float64 (go_div d Second) = Fin a" "\<bar>a\<bar> \<le> 2 ^ 63" and
    b: "f64_div (float64 (go_mod d Second)) (Fin 1000000000) = Fin b" "\<bar>b\<bar> \<le> 2 ^ 63"
    by blast
  have "- (2 ^ 64) \<le> a + b" "a + b \<le> 2 ^ 64" using a(2) b(2) by simp_all
  then obtain y where "round_f64 (a + b) = Fin y"
    using round_f64_between [of "- (2 ^ 64)" "a + b" "2 ^ 64"] more_representable by blast
  then show ?thesis by (simp add: Seconds_def a(1) b(1) f64_add_def)
qed

lemma Seconds_pos:
  assumes "0 < sint d"
  shows "\<exists>y. Seconds d = Fin y \<and> 0 < y"
proof -
  define q where "q = sint d div 1000000000"
  define r where "r = sint d mod 1000000000"
  have q0: "0 \<le> q" using assms by (simp add: q_def pos_imp_zdiv_nonneg_iff)
  have r0: "0 \<le> r" "r < 1000000000" by (simp_all add: r_def)
  have dq: "sint d = q * 1000000000 + r" by (simp add: q_def r_def)
  with q0 r0 have "q \<le> sint d" by linarith
  then have qb: "q < 2 ^ 63" using sint_lt [of d] by simp
  have qr: "1 \<le> q \<or> 1 \<le> r"
  proof (rule ccontr)
    assume "\<not> (1 \<le> q \<or> 1 \<le> r)"
    with q0 r0 have "q = 0" "r = 0" by simp_all
    with dq assms show False by simp
  qed
  have s: "sint (1000000000 :: int64) = 1000000000" by simp
  have "sint d sdiv 1000000000 = q"
    using assms by (simp add: signed_divide_int_def q_def)
  then have gd: "sint (go_div d Second) = q"
    using q0 qb by (simp add: go_div_def Second_def s sint_word_of_int_id)
  have "sint d smod 1000000000 = r"
    using assms by (simp add: signed_modulo_int_def r_def)
  then have gm: "sint (go_mod d Second) = r"
    using r0 by (simp add: go_mod_def Second_def s sint_word_of_int_id)
  from Seconds_parts [of d] obtain a b where
    a: "float64 (go_div d Second) = Fin a" "\<bar>a\<bar> \<le> 2 ^ 63" and
    b: "f64_div (float64 (go_mod d Second)) (Fin 1000000000) = Fin b" "\<bar>b\<bar> \<le> 2 ^ 63"
    by blast
  from float64_nonneg [of "go_div d Second"] q0 gd a(1) have a0: "0 \<le> a" by simp
  from float64_nonneg [of "go_mod d Second"] r0 gm obtain m
    where m: "float64 (go_mod d Second) = Fin m" "0 \<le> m" by auto
  have bq: "f64_div (float64 (go_mod d Second)) (Fin 1000000000) = round_f64 (m / 1000000000)"
    by (simp add: m(1) f64_div_def)
  have "f64_le (Fin 0) (round_f64 (m / 1000000000))"
    using m(2) by (intro round_f64_ge representable_consts) simp
  with b(1) bq have b0: "0 \<le> b" by simp
  have low: "1 / 2 ^ 30 \<le> a + b"
  proof (cases "1 \<le> q")
    case True
    with gd have "0 < sint (go_div d Second)" by simp
    from float64_pos [OF this] a(1) have "1 \<le> a" by simp
    with b0 show ?thesis by simp
  next
    case False
    with qr have "1 \<le> r" by simp
    with gm have "0 < sint (go_mod d Second)" by simp
    from float64_pos [OF this] m(1) have "1 \<le> m" by simp
    then have "1 / 2 ^ 30 \<le> m / 1000000000" by (simp add: field_simps)
    then have "f64_le (Fin (1 / 2 ^ 30)) (round_f64 (m / 1000000000))"
      by (intro round_f64_ge more_representable)
    with b(1) bq have "1 / 2 ^ 30 \<le> b" by simp
    with a0 show ?thesis by simp
  qed
  have "a + b \<le> 2 ^ 64" using a(2) b(2) by simp
  with low obtain y where y: "round_f64 (a + b) = Fin y" "1 / 2 ^ 30 \<le> y"
    using round_f64_between [of "1 / 2 ^ 30" "a + b" "2 ^ 64"] more_representable by blast
  have "(0::real) < 1 / 2 ^ 30" by simp
  with y(2) have "0 < y" by linarith
  with y(1) show ?thesis by (simp add: Seconds_def a(1) b(1) f64_add_def)
qed

lemma bytesToMbps_not_NaN: "bytesToMbps b d \<noteq> NaN"
proof (cases "sint d \<le> 0")
  case True
  then show ?thesis by (simp add: bytesToMbps_def)
next
  case False
  then have "0 < sint d" by simp
  from Seconds_pos [OF this] obtain y where y: "Seconds d = Fin y" "0 < y" by blast
  have n1: "f64_mul (float64 b) (Fin 8) \<noteq> NaN"
    by (rule f64_mul_not_NaN [OF float64_not_NaN]) simp
  have n2: "f64_div (f64_mul (float64 b) (Fin 8)) (Fin y) \<noteq> NaN"
    by (rule f64_div_not_NaN [OF n1]) (use y(2) in simp)
  have "f64_div (f64_div (f64_mul (float64 b) (Fin 8)) (Fin y)) (Fin 1000000) \<noteq> NaN"
    by (rule f64_div_not_NaN [OF n2]) simp
  with False y(1) show ?thesis by (simp add: bytesToMbps_def Let_def)
qed

lemma clamp_return_not_NaN:
  "p \<noteq> NaN \<Longrightarrow>
   (if f64_lt p (Fin 0) then Fin 0 else if f64_lt (Fin 100) p then Fin 100 else p) \<noteq> NaN"
  by simp

lemma percentDone_not_NaN: "percentDone current total' \<noteq> NaN"
proof (cases "sint total' \<le> 0")
  case True
  then show ?thesis by (simp add: percentDone_def)
next
  case False
  then have "0 < sint total'" by simp
  from float64_pos [OF this] obtain t where t: "float64 total' = Fin t" "1 \<le> t" by blast
  have n1: "f64_div (float64 current) (Fin t) \<noteq> NaN"
    by (rule f64_div_not_NaN [OF float64_not_NaN]) (use t(2) in simp)
  have "f64_mul (f64_div (float64 current) (Fin t)) (Fin 100) \<noteq> NaN"
    by (rule f64_mul_not_NaN [OF n1]) simp
  from clamp_return_not_NaN [OF this] False t(1) show ?thesis
    by (simp add: percentDone_def Let_def)
qed

lemma percentElapsed_not_NaN: "percentElapsed e target \<noteq> NaN"
proof (cases "sint target \<le> 0")
  case True
  then show ?thesis by (simp add: percentElapsed_def)
next
  case False
  then have "0 < sint target" by simp
  from Seconds_pos [OF this] obtain t where t: "Seconds target = Fin t" "0 < t" by blast
  from Seconds_finite [of e] obtain x where x: "Seconds e = Fin x" by blast
  have n0: "Seconds e \<noteq> NaN" by (simp add: x)
  have n1: "f64_div (Seconds e) (Fin t) \<noteq> NaN"
    by (rule f64_div_not_NaN [OF n0]) (use t(2) in simp)
  have "f64_mul (f64_div (Seconds e) (Fin t)) (Fin 100) \<noteq> NaN"
    by (rule f64_mul_not_NaN [OF n1]) simp
  from clamp_return_not_NaN [OF this] False t(1) show ?thesis
    by (simp add: percentElapsed_def Let_def)
qed


subsection \<open>Every delivered event is in range\<close>

lemma ping_event_in_range:
  assumes "i < nat (sint (PingCount cfg))"
  shows "progress_in_range (ping_event cfg net i)"
proof -
  have "sint (PingCount cfg) < 2 ^ 63" using sint_lt [of "PingCount cfg"] by simp
  with assms have "int (i + 1) < 2 ^ 63" by linarith
  then have "i + 1 < 2 ^ 63" by (metis of_nat_less_iff of_nat_numeral of_nat_power)
  then have s: "sint (of_nat (i + 1) :: int64) = int (i + 1)" by (rule word_of_nat_small(1))
  have "0 < sint (of_nat (i + 1) :: int64)" "sint (of_nat (i + 1) :: int64) \<le> sint (PingCount cfg)"
    using assms unfolding s by linarith+
  from ping_percent_range [OF this] obtain y where
    y: "f64_mul (f64_div (float64 (of_nat (i + 1))) (float64 (PingCount cfg))) (Fin 100) = Fin y"
      "0 \<le> y" "y \<le> 100" by blast
  have ms: "f64_le (Fin 0) (float64 m)" if "\<not> sint m < 0" for m
  proof -
    from that have "0 \<le> sint m" by simp
    from float64_nonneg [OF this] show ?thesis by auto
  qed
  have "f64_le (Fin 0) (Percent (ping_event cfg net i))"
    "f64_le (Percent (ping_event cfg net i)) (Fin 100)"
    unfolding ping_event_def using y by simp_all
  moreover have "f64_le (Fin 0) (ProgressUpdate.Mbps (ping_event cfg net i))"
    by (simp add: ping_event_def)
  moreover have "f64_le (Fin 0) (PingMs (ping_event cfg net i))"
    using ms [of "Milliseconds (since_report (net i))"] by (simp add: ping_event_def)
  ultimately show ?thesis by (simp add: progress_in_range_def)
qed

lemma runPing_in_range:
  assumes "runPing mem net cfg = Some (p, err, fx)"
  shows "events_in_range fx"
proof -
  obtain results e fx' where l: "ping_loop net cfg 0 [] [] = (results, e, fx')"
    by (cases "ping_loop net cfg 0 [] []") auto
  from assms l have fx: "fx = fx'"
    by (auto simp: runPing_def Let_def split: if_splits option.splits)
  have z: "0 \<le> sint (0 :: int64)" by simp
  have "progress_in_range (ping_event cfg net j)"
    if "j \<in> set (takeWhile (\<lambda>j. get_err (net j) = None) [0 ..< nat (sint (PingCount cfg))])"
    for j
  proof -
    from that have "j \<in> set [0 ..< nat (sint (PingCount cfg))]" by (rule set_takeWhileD [THEN conjunct1])
    then have "j < nat (sint (PingCount cfg))" by simp
    then show ?thesis by (rule ping_event_in_range)
  qed
  then have "list_all progress_in_range
      (map (ping_event cfg net)
        (takeWhile (\<lambda>j. get_err (net j) = None) [0 ..< nat (sint (PingCount cfg))]))"
    by (simp add: list_all_iff)
  with ping_loop_deliveries [OF z l] show ?thesis
    by (simp add: fx events_in_range_def deliveries_simps)
qed

lemma run_workers_in_range:
  assumes "\<forall>a \<in> set (concat ws). \<forall>e. request a = Some e \<longrightarrow> e = r"
    and "is_request r"
    and "\<And>c d. events_in_range (sample c d)"
    and "events_in_range (effects s)"
  shows "events_in_range (effects (run_workers sample sched ws s))"
proof (rule run_workers_invariant [where P = "\<lambda>s. events_in_range (effects s)"])
  show "events_in_range (effects s)" by (rule assms(4))
  show "events_in_range (effects (perform a s))"
    if "a \<in> set (concat ws)" "events_in_range (effects s)" for a s
  proof (cases a)
    case (Effect e)
    with that(1) assms(1) have "e = r" by auto
    moreover have "events_in_range [r]"
      using assms(2) by (cases r) (simp_all add: events_in_range_simps)
    ultimately show ?thesis
      using that(2) Effect by (simp add: events_in_range_append)
  next
    case (AtomicAddInt64 n)
    with that(2) show ?thesis by simp
  next
    case (SetRunErr x)
    with that(2) show ?thesis by (simp add: setRunErr_def)
  qed
  show "events_in_range (effects (s\<lparr>effects := effects s @ sample (totalBytes s) d\<rparr>))"
    if "events_in_range (effects s)" for d s
    using that by (simp add: events_in_range_append assms(3))
qed

lemma runDownload_in_range:
  assumes "runDownload mem env cfg = Some (m, err, fx)"
  shows "events_in_range fx"
proof -
  define psb where "psb = DownloadMB cfg * 1024 * 1024"
  define sample where "sample = (\<lambda>current since.
            reportProgress cfg ''download'' (percentDone current (psb * Streams cfg))
              (bytesToMbps current since) (Fin 0))"
  from assms obtain ws where
    ws: "those (spawn (Streams cfg) (\<lambda>i. download_worker mem cfg psb (stream env i))) = Some ws"
    by (auto simp: runDownload_def Let_def psb_def split: option.splits)
  define s where "s = run_workers sample (schedule env) ws initial_shared"
  define fx' where "fx' = effects s @
        reportProgress cfg ''download'' (Fin 100) (bytesToMbps (totalBytes s) (elapsed env)) (Fin 0) @
        concat (map (sample (totalBytes s)) (late_ticks env))"
  have "runDownload mem env cfg =
        (if runErr s \<noteq> None then Some (zero_SpeedMetrics, runErr s, fx')
         else if totalBytes s = 0
         then Some (zero_SpeedMetrics, Some (ErrorString ''download returned no data''), fx')
         else Some (\<lparr>SpeedMetrics.Mbps = bytesToMbps (totalBytes s) (elapsed env),
                 Bytes = totalBytes s, Duration = elapsed env\<rparr>, None, fx'))"
    using ws unfolding runDownload_def Let_def s_def fx'_def sample_def psb_def by simp
  with assms have "Some (m, err, fx) =
        (if runErr s \<noteq> None then Some (zero_SpeedMetrics, runErr s, fx')
         else if totalBytes s = 0
         then Some (zero_SpeedMetrics, Some (ErrorString ''download returned no data''), fx')
         else Some (\<lparr>SpeedMetrics.Mbps = bytesToMbps (totalBytes s) (elapsed env),
                 Bytes = totalBytes s, Duration = elapsed env\<rparr>, None, fx'))"
    by simp
  then have fx: "fx = fx'"
    by (cases "runErr s = None"; cases "totalBytes s = 0") simp_all
  have smp: "events_in_range (sample c d)" for c d
    unfolding sample_def
    by (rule reportProgress_in_range [OF percentDone_not_NaN bytesToMbps_not_NaN]) simp
  have late: "events_in_range (concat (map (sample (totalBytes s)) (late_ticks env)))"
    by (rule events_in_range_concat) (rule smp)
  have final: "events_in_range
      (reportProgress cfg ''download'' (Fin 100) (bytesToMbps (totalBytes s) (elapsed env)) (Fin 0))"
    by (rule reportProgress_in_range [OF _ bytesToMbps_not_NaN]) simp_all
  have "events_in_range (effects s)"
    unfolding s_def
  proof (rule run_workers_in_range
      [where r = "HttpGet (BaseURL cfg @ ''/download?size='' @ format_d psb)"])
    show "\<forall>a \<in> set (concat ws). \<forall>e. request a = Some e \<longrightarrow>
        e = HttpGet (BaseURL cfg @ ''/download?size='' @ format_d psb)"
      by (rule download_phase_workers(3) [OF ws])
    show "is_request (HttpGet (BaseURL cfg @ ''/download?size='' @ format_d psb))" by simp
    show "events_in_range (sample c d)" for c d by (rule smp)
    show "events_in_range (effects initial_shared)"
      by (simp add: initial_shared_def events_in_range_simps)
  qed
  with late final show ?thesis by (simp add: fx fx'_def events_in_range_append)
qed

lemma runUpload_in_range:
  assumes "runUpload env cfg = Some (m, err, fx)"
  shows "events_in_range fx"
proof -
  define sample where "sample = (\<lambda>current since.
            reportProgress cfg ''upload'' (percentElapsed since (ClientConfig.Duration cfg))
              (bytesToMbps current since) (Fin 0))"
  from assms obtain ws where
    ws: "those (spawn (Streams cfg) (\<lambda>i. upload_worker cfg (stream env i))) = Some ws"
    by (auto simp: runUpload_def Let_def split: option.splits)
  define s where "s = run_workers sample (schedule env) ws initial_shared"
  define fx' where "fx' = effects s @
        reportProgress cfg ''upload'' (Fin 100) (bytesToMbps (totalBytes s) (elapsed env)) (Fin 0) @
        concat (map (sample (totalBytes s)) (late_ticks env))"
  have "runUpload env cfg =
        (if runErr s \<noteq> None then Some (zero_SpeedMetrics, runErr s, fx')
         else if totalBytes s = 0
         then Some (zero_SpeedMetrics, Some (ErrorString ''upload sent no data''), fx')
         else Some (\<lparr>SpeedMetrics.Mbps = bytesToMbps (totalBytes s) (elapsed env),
                 Bytes = totalBytes s, Duration = elapsed env\<rparr>, None, fx'))"
    using ws unfolding runUpload_def Let_def s_def fx'_def sample_def by simp
  with assms have "Some (m, err, fx) =
        (if runErr s \<noteq> None then Some (zero_SpeedMetrics, runErr s, fx')
         else if totalBytes s = 0
         then Some (zero_SpeedMetrics, Some (ErrorString ''upload sent no data''), fx')
         else Some (\<lparr>SpeedMetrics.Mbps = bytesToMbps (totalBytes s) (elapsed env),
                 Bytes = totalBytes s, Duration = elapsed env\<rparr>, None, fx'))"
    by simp
  then have fx: "fx = fx'"
    by (cases "runErr s = None"; cases "totalBytes s = 0") simp_all
  have smp: "events_in_range (sample c d)" for c d
    unfolding sample_def
    by (rule reportProgress_in_range [OF percentElapsed_not_NaN bytesToMbps_not_NaN]) simp
  have late: "events_in_range (concat (map (sample (totalBytes s)) (late_ticks env)))"
    by (rule events_in_range_concat) (rule smp)
  have final: "events_in_range
      (reportProgress cfg ''upload'' (Fin 100) (bytesToMbps (totalBytes s) (elapsed env)) (Fin 0))"
    by (rule reportProgress_in_range [OF _ bytesToMbps_not_NaN]) simp_all
  have "events_in_range (effects s)"
    unfolding s_def
  proof (rule run_workers_in_range [where r = "HttpPost (BaseURL cfg @ ''/upload'')"])
    show "\<forall>a \<in> set (concat ws). \<forall>e. request a = Some e \<longrightarrow>
        e = HttpPost (BaseURL cfg @ ''/upload'')"
      by (rule upload_phase_workers(3) [OF ws])
    show "is_request (HttpPost (BaseURL cfg @ ''/upload''))" by simp
    show "events_in_range (sample c d)" for c d by (rule smp)
    show "events_in_range (effects initial_shared)"
      by (simp add: initial_shared_def events_in_range_simps)
  qed
  with late final show ?thesis by (simp add: fx fx'_def events_in_range_append)
qed

text \<open>
  In the engine itself the reporter never meets a NaN: the percents, the rates and the
  latencies it is handed are quotients by a positive finite divisor. Hence every event
  that a run of the client delivers, in any phase and under any schedule, has its
  percent within \<open>[0, 100]\<close> and its Mbps and latency not below \<open>0\<close>.
\<close>

lemma RunClient_events_in_range:
  assumes "RunClient w cfg0 = Some ((res, err), fx)"
  shows "list_all progress_in_range (deliveries fx)"
proof -
  from RunClient_cases [OF assms] obtain p perr fx1 where
    p: "runPing (memory w) (ping_net w) (normalizeClientConfig cfg0) = Some (p, perr, fx1)" and
    rest: "case perr of
        Some e \<Rightarrow> fx = fx1
      | None \<Rightarrow>
          (\<exists>d derr fx2.
             runDownload (memory w) (download_net w) (normalizeClientConfig cfg0) = Some (d, derr, fx2) \<and>
             (case derr of
                Some e \<Rightarrow> fx = fx1 @ fx2
              | None \<Rightarrow>
                  (\<exists>u uerr fx3.
                     runUpload (upload_net w) (normalizeClientConfig cfg0) = Some (u, uerr, fx3) \<and>
                     fx = fx1 @ fx2 @ fx3)))"
    by (auto split: option.splits)
  note r1 = runPing_in_range [OF p]
  have "events_in_range fx"
  proof (cases perr)
    case (Some e)
    with rest r1 show ?thesis by simp
  next
    case None
    with rest obtain d derr fx2 where
      d: "runDownload (memory w) (download_net w) (normalizeClientConfig cfg0) = Some (d, derr, fx2)" and
      rest2: "case derr of
                Some e \<Rightarrow> fx = fx1 @ fx2
              | None \<Rightarrow>
                  (\<exists>u uerr fx3.
                     runUpload (upload_net w) (normalizeClientConfig cfg0) = Some (u, uerr, fx3) \<and>
                     fx = fx1 @ fx2 @ fx3)"
      by auto
    note r2 = runDownload_in_range [OF d]
    show ?thesis
    proof (cases derr)
      case (Some e)
      with rest2 r1 r2 show ?thesis by (simp add: events_in_range_append)
    next
      case None
      with rest2 obtain u uerr fx3 where
        u: "runUpload (upload_net w) (normalizeClientConfig cfg0) = Some (u, uerr, fx3)" and
        f: "fx = fx1 @ fx2 @ fx3"
        by auto
      from runUpload_in_range [OF u] r1 r2 f show ?thesis
        by (simp add: events_in_range_append)
    qed
  qed
  then show ?thesis by (simp add: events_in_range_def)
qed

subsection \<open>The accuracy of the floating-point results\<close>

lemma round_pos_rel:
  assumes lo: "2 powi (- 1022) \<le> x" and hi: "x < 2 powi 1023"
  shows "\<exists>y. round_pos x = Fin y \<and> \<bar>y - x\<bar> \<le> x * eps64"
proof -
  have "(0::real) < 2 powi (- 1022)" by simp
  with lo have x: "0 < x" by linarith
  define e where "e = ilog2 x"
  from ilog2_bounds [OF x] have b: "2 powi e \<le> x" "x < 2 powi (e + 1)"
    by (simp_all add: e_def)
  have e_hi: "e \<le> 1022"
  proof (rule ccontr)
    assume "\<not> e \<le> 1022"
    then have "1023 \<le> e" by simp
    then have "(2::real) powi 1023 \<le> 2 powi e" by (intro power_int_increasing) simp_all
    with b(1) hi show False by linarith
  qed
  have e_lo: "- 1022 \<le> e"
  proof (rule ccontr)
    assume "\<not> - 1022 \<le> e"
    then have "e + 1 \<le> - 1022" by simp
    then have "(2::real) powi (e + 1) \<le> 2 powi (- 1022)" by (intro power_int_increasing) simp_all
    with b(2) lo show False by linarith
  qed
  have ue: "ulp_exp x = e - 52" using e_lo by (simp add: ulp_exp_def e_def)
  define m where "m = round_even (x * 2 powi (- (e - 52)))"
  have r: "round_pos x = Fin (of_int m * 2 powi (e - 52))"
    unfolding round_pos_alt ue using e_hi by (simp add: e_def m_def)
  have p: "(0::real) < 2 powi (e - 52)" by simp
  have inv: "(2::real) powi (52 - e) * 2 powi (e - 52) = 1"
    using powi_split [of "52 - e" "e - 52"] by simp
  have "\<bar>of_int m - x * 2 powi (- (e - 52))\<bar> \<le> 1 / 2"
    unfolding m_def by (rule round_even_err)
  then have "\<bar>of_int m - x * 2 powi (- (e - 52))\<bar> * 2 powi (e - 52) \<le> 1 / 2 * 2 powi (e - 52)"
    using p by (intro mult_right_mono) simp_all
  moreover have "\<bar>of_int m - x * 2 powi (- (e - 52))\<bar> * 2 powi (e - 52) =
      \<bar>of_int m * 2 powi (e - 52) - x\<bar>"
  proof -
    have "\<bar>of_int m - x * 2 powi (- (e - 52))\<bar> * 2 powi (e - 52) =
        \<bar>(of_int m - x * 2 powi (- (e - 52))) * 2 powi (e - 52)\<bar>"
      using p by (simp add: abs_mult)
    also have "(of_int m - x * 2 powi (- (e - 52))) * 2 powi (e - 52) =
        of_int m * 2 powi (e - 52) - x * (2 powi (- (e - 52)) * 2 powi (e - 52))"
      by (simp add: algebra_simps)
    finally show ?thesis by (simp add: inv)
  qed
  moreover have "1 / 2 * (2::real) powi (e - 52) = 2 powi e * eps64"
  proof -
    have "(2::real) powi (e - 52) = 2 powi e * 2 powi (- 52)"
      using powi_split [of e "- 52"] by simp
    also have "(2::real) powi (- 52) = 1 / 2 ^ 52" by (simp add: power_int_def field_simps)
    finally show ?thesis by (simp add: eps64_def)
  qed
  moreover have "2 powi e * eps64 \<le> x * eps64"
    using b(1) by (intro mult_right_mono) (simp_all add: eps64_def)
  ultimately have "\<bar>of_int m * 2 powi (e - 52) - x\<bar> \<le> x * eps64" by linarith
  with r show ?thesis by simp
qed

lemma round_f64_rel:
  assumes "1 / 2 ^ 1001 \<le> x" "x \<le> 2 ^ 1001"
  shows "\<exists>y. round_f64 x = Fin y \<and> x * (1 - eps64) \<le> y \<and> y \<le> x * (1 + eps64)"
proof -
  have "(0::real) < 1 / 2 ^ 1001" by simp
  with assms(1) have x: "0 < x" by linarith
  have "(2::real) powi (- 1022) \<le> 1 / 2 ^ 1001"
    by (simp add: power_int_def field_simps)
  with assms(1) have lo: "2 powi (- 1022) \<le> x" by linarith
  have "(2::real) ^ 1001 < 2 powi 1023" by (simp add: power_int_def)
  with assms(2) have hi: "x < 2 powi 1023" by linarith
  from round_pos_rel [OF lo hi] obtain y where y: "round_pos x = Fin y" "\<bar>y - x\<bar> \<le> x * eps64"
    by blast
  from y(2) have "x * (1 - eps64) \<le> y \<and> y \<le> x * (1 + eps64)"
    by (simp add: algebra_simps abs_le_iff)
  with y(1) x show ?thesis by (simp add: round_f64_def)
qed


lemma eps64_pos: "0 < 1 - eps64" "0 < 1 + eps64" "1 - eps64 \<le> 1" "1 \<le> 1 + eps64" "0 \<le> 1 - eps64"
  by (simp_all add: eps64_def)

lemma eps64_pow:
  "0 < (1 - eps64) ^ k" "0 < (1 + eps64) ^ k" "(1 - eps64) ^ k \<le> 1" "1 \<le> (1 + eps64) ^ k"
  using eps64_pos by (simp_all add: power_le_one one_le_power)

lemma eps64_8: "(1 + eps64) ^ 8 \<le> 2 * (1 - eps64) ^ 8"
  by (simp add: eps64_def power_divide)

lemma eps64_7:
  "(1 + eps64) ^ 7 \<le> (1 + 1 / 2 ^ 49) * (1 - eps64) ^ 7"
  "(1 - 1 / 2 ^ 49) * (1 + eps64) ^ 7 \<le> (1 - eps64) ^ 7"
  by (simp_all add: eps64_def power_divide)

lemma near_refl: "near 0 x x"
  by (simp add: near_def)

lemma near_zero: "near k 0 y \<Longrightarrow> y = 0"
proof -
  assume "near k 0 y"
  then have "0 \<le> y * (1 + eps64) ^ k" "y * (1 - eps64) ^ k \<le> 0" by (simp_all add: near_def)
  then have "0 \<le> y" "y \<le> 0"
    using eps64_pow(1,2) [of k] by (simp_all add: zero_le_mult_iff mult_le_0_iff)
  then show ?thesis by simp
qed

lemma near_mono:
  assumes "near j x y" "j \<le> k" "0 \<le> x" "0 \<le> y"
  shows "near k x y"
proof -
  have d: "(1 - eps64) ^ k \<le> (1 - eps64) ^ j"
    using assms(2) eps64_pos by (intro power_decreasing) simp_all
  have i: "(1 + eps64) ^ j \<le> (1 + eps64) ^ k"
    using assms(2) eps64_pos by (intro power_increasing) simp_all
  have "x * (1 - eps64) ^ k \<le> x * (1 - eps64) ^ j" using d assms(3) by (rule mult_left_mono)
  also have "\<dots> \<le> y * (1 + eps64) ^ j" using assms(1) by (simp add: near_def)
  also have "\<dots> \<le> y * (1 + eps64) ^ k" using i assms(4) by (rule mult_left_mono)
  finally have 1: "x * (1 - eps64) ^ k \<le> y * (1 + eps64) ^ k" .
  have "y * (1 - eps64) ^ k \<le> y * (1 - eps64) ^ j" using d assms(4) by (rule mult_left_mono)
  also have "\<dots> \<le> x * (1 + eps64) ^ j" using assms(1) by (simp add: near_def)
  also have "\<dots> \<le> x * (1 + eps64) ^ k" using i assms(3) by (rule mult_left_mono)
  finally have 2: "y * (1 - eps64) ^ k \<le> x * (1 + eps64) ^ k" .
  from 1 2 show ?thesis by (simp add: near_def)
qed

lemma near_add: "near k x y \<Longrightarrow> near k s t \<Longrightarrow> near k (x + s) (y + t)"
  by (simp add: near_def algebra_simps)

lemma near_scale:
  assumes "near k x y" "0 \<le> c"
  shows "near k (x * c) (y * c)"
proof -
  from assms(1) have "x * (1 - eps64) ^ k \<le> y * (1 + eps64) ^ k"
    "y * (1 - eps64) ^ k \<le> x * (1 + eps64) ^ k" by (simp_all add: near_def)
  then have "x * (1 - eps64) ^ k * c \<le> y * (1 + eps64) ^ k * c"
    "y * (1 - eps64) ^ k * c \<le> x * (1 + eps64) ^ k * c"
    using assms(2) by (simp_all add: mult_right_mono)
  then show ?thesis by (simp add: near_def mult.assoc mult.left_commute mult.commute)
qed

lemma near_div:
  assumes xy: "near j x y" and st: "near k s t"
    and pos: "0 \<le> x" "0 \<le> y" "0 < s" "0 < t"
  shows "near (j + k) (x / s) (y / t)"
proof -
  define a where "a = (1 - eps64) ^ j"
  define b where "b = (1 + eps64) ^ j"
  define c where "c = (1 - eps64) ^ k"
  define d where "d = (1 + eps64) ^ k"
  have p: "0 < a" "0 < b" "0 < c" "0 < d"
    by (simp_all add: a_def b_def c_def d_def eps64_pow)
  from xy have 1: "x * a \<le> y * b" and 2: "y * a \<le> x * b"
    by (simp_all add: near_def a_def b_def)
  from st have 3: "s * c \<le> t * d" and 4: "t * c \<le> s * d"
    by (simp_all add: near_def c_def d_def)
  have "(x * a) * (t * c) \<le> (y * b) * (s * d)"
    by (rule mult_mono [OF 1 4]) (use pos p in simp_all)
  then have "(x * (a * c)) * t \<le> (y * (b * d)) * s" by (simp add: algebra_simps)
  then have 5: "x / s * (a * c) \<le> y / t * (b * d)"
    using pos by (simp add: field_simps)
  have "(y * a) * (s * c) \<le> (x * b) * (t * d)"
    by (rule mult_mono [OF 2 3]) (use pos p in simp_all)
  then have "(y * (a * c)) * s \<le> (x * (b * d)) * t" by (simp add: algebra_simps)
  then have 6: "y / t * (a * c) \<le> x / s * (b * d)"
    using pos by (simp add: field_simps)
  from 5 6 show ?thesis
    by (simp add: near_def power_add a_def b_def c_def d_def)
qed

lemma near_half:
  assumes "near k x y" "k \<le> 8" "0 \<le> x"
  shows "x / 2 \<le> y \<and> y \<le> 2 * x"
proof -
  define a where "a = (1 - eps64) ^ k"
  define b where "b = (1 + eps64) ^ k"
  have p: "0 < a" "0 < b" by (simp_all add: a_def b_def eps64_pow)
  have "b \<le> (1 + eps64) ^ 8"
    unfolding b_def using assms(2) eps64_pos by (intro power_increasing) simp_all
  also have "\<dots> \<le> 2 * (1 - eps64) ^ 8" by (rule eps64_8)
  also have "(1 - eps64) ^ 8 \<le> a"
    unfolding a_def using assms(2) eps64_pos by (intro power_decreasing) simp_all
  finally have ba: "b \<le> 2 * a" by simp
  from assms(1) have 1: "x * a \<le> y * b" and 2: "y * a \<le> x * b"
    by (simp_all add: near_def a_def b_def)
  have y0: "0 \<le> y"
  proof -
    have "0 \<le> x * a" using assms(3) p by simp
    with 1 have "0 \<le> y * b" by linarith
    with p show ?thesis by (simp add: zero_le_mult_iff)
  qed
  have "x * b \<le> x * (2 * a)" using ba assms(3) by (rule mult_left_mono)
  with 2 have "y * a \<le> (2 * x) * a" by (simp add: algebra_simps)
  then have u: "y \<le> 2 * x" using p by simp
  have "y * b \<le> y * (2 * a)" using ba y0 by (rule mult_left_mono)
  with 1 have "x * a \<le> (2 * y) * a" by (simp add: algebra_simps)
  then have "x \<le> 2 * y" using p by simp
  with u show ?thesis by simp
qed

lemma round_near:
  assumes n: "near k x z" and k: "k \<le> 8"
    and mag: "x = 0 \<or> (1 / 2 ^ 1000 \<le> x \<and> x \<le> 2 ^ 1000)"
  shows "\<exists>y. round_f64 z = Fin y \<and> 0 \<le> y \<and> near (Suc k) x y"
proof (cases "x = 0")
  case True
  with n have "z = 0" by (simp add: near_zero)
  with True show ?thesis by (simp add: round_f64_def near_def)
next
  case False
  with mag have m: "1 / 2 ^ 1000 \<le> x" "x \<le> 2 ^ 1000" by simp_all
  have "(0::real) < 1 / 2 ^ 1000" by simp
  with m(1) have x: "0 < x" by linarith
  then have x0: "0 \<le> x" by simp
  from near_half [OF n k x0] have h: "x / 2 \<le> z" "z \<le> 2 * x" by simp_all
  have z: "0 < z" using x h(1) by linarith
  have "1 / 2 ^ 1001 \<le> x / 2" using m(1) by simp
  with h(1) have lo: "1 / 2 ^ 1001 \<le> z" by linarith
  have "2 * x \<le> 2 ^ 1001" using m(2) by simp
  with h(2) have hi: "z \<le> 2 ^ 1001" by linarith
  from round_f64_rel [OF lo hi] obtain y where
    y: "round_f64 z = Fin y" "z * (1 - eps64) \<le> y" "y \<le> z * (1 + eps64)" by blast
  have "0 \<le> z * (1 - eps64)" using z eps64_pos by simp
  with y(2) have y0: "0 \<le> y" by linarith
  define a where "a = (1 - eps64) ^ k"
  define b where "b = (1 + eps64) ^ k"
  have p: "0 < a" "0 < b" by (simp_all add: a_def b_def eps64_pow)
  from n have 1: "x * a \<le> z * b" and 2: "z * a \<le> x * b"
    by (simp_all add: near_def a_def b_def)
  have "x * a * (1 - eps64) \<le> z * b * (1 - eps64)"
    using 1 eps64_pos by (intro mult_right_mono) simp_all
  also have "\<dots> = (z * (1 - eps64)) * b" by (simp add: algebra_simps)
  also have "\<dots> \<le> y * b" using y(2) p by (intro mult_right_mono) simp_all
  also have "\<dots> \<le> y * b * (1 + eps64)"
  proof -
    have "0 \<le> y * b" using y0 p by simp
    then have "y * b * 1 \<le> y * b * (1 + eps64)"
      using eps64_pos by (intro mult_left_mono) simp_all
    then show ?thesis by simp
  qed
  finally have 3: "x * (a * (1 - eps64)) \<le> y * (b * (1 + eps64))"
    by (simp add: algebra_simps)
  have "y * a * (1 - eps64) \<le> z * (1 + eps64) * a * (1 - eps64)"
    using y(3) p eps64_pos by (intro mult_right_mono) simp_all
  also have "\<dots> = (z * a) * (1 + eps64) * (1 - eps64)" by (simp add: algebra_simps)
  also have "\<dots> \<le> (x * b) * (1 + eps64) * (1 - eps64)"
    using 2 eps64_pos by (intro mult_right_mono) simp_all
  also have "\<dots> \<le> (x * b) * (1 + eps64) * 1"
  proof -
    have "0 \<le> (x * b) * (1 + eps64)" using x0 p eps64_pos by simp
    then show ?thesis using eps64_pos by (intro mult_left_mono) simp_all
  qed
  finally have 4: "y * (a * (1 - eps64)) \<le> x * (b * (1 + eps64))"
    by (simp add: algebra_simps)
  from 3 4 have "near (Suc k) x y"
    by (simp add: near_def a_def b_def mult.commute)
  with y(1) y0 show ?thesis by simp
qed

lemma near_7_abs:
  assumes "near 7 x y" "0 \<le> x"
  shows "\<bar>y - x\<bar> \<le> x / 2 ^ 49"
proof -
  define a where "a = (1 - eps64) ^ 7"
  define b where "b = (1 + eps64) ^ 7"
  define e where "e = (1::real) / 2 ^ 49"
  have p: "0 < a" "0 < b" unfolding a_def b_def by (rule eps64_pow)+
  from assms(1) have 1: "x * a \<le> y * b" and 2: "y * a \<le> x * b"
    by (simp_all add: near_def a_def b_def)
  have ba: "b \<le> (1 + e) * a" and ab: "(1 - e) * b \<le> a"
    unfolding a_def b_def e_def by (rule eps64_7)+
  have "x * b \<le> x * ((1 + e) * a)" using ba assms(2) by (rule mult_left_mono)
  with 2 have "y * a \<le> (x * (1 + e)) * a" by (simp add: mult.assoc)
  then have hi: "y \<le> x * (1 + e)" using p by simp
  have "x * ((1 - e) * b) \<le> x * a" using ab assms(2) by (rule mult_left_mono)
  with 1 have "(x * (1 - e)) * b \<le> y * b" by (simp add: mult.assoc)
  then have lo: "x * (1 - e) \<le> y" using p by simp
  from lo hi have "\<bar>y - x\<bar> \<le> x * e" by (simp add: algebra_simps abs_le_iff)
  then show ?thesis by (simp add: e_def)
qed

lemma near_abs:
  assumes "near k x y" "k \<le> 7" "0 \<le> x" "0 \<le> y"
  shows "\<bar>y - x\<bar> \<le> x / 2 ^ 49"
proof -
  from assms have "near 7 x y" by (rule near_mono)
  then show ?thesis using assms(3) by (rule near_7_abs)
qed

lemma sint_real_cases:
  assumes "0 \<le> sint (n :: int64)"
  shows "real_of_int (sint n) = 0 \<or> (1 \<le> real_of_int (sint n) \<and> real_of_int (sint n) \<le> 2 ^ 63)"
proof (cases "sint n = 0")
  case True
  then show ?thesis by (simp del: of_int_sint)
next
  case False
  with assms have "1 \<le> sint n" by simp
  then have "real_of_int 1 \<le> real_of_int (sint n)" by (simp only: of_int_le_iff)
  then have "1 \<le> real_of_int (sint n)" by (simp del: of_int_sint)
  with real_sint_bounds(2) [of n] show ?thesis by blast
qed

lemma round_near_int:
  assumes "x = 0 \<or> (1 \<le> x \<and> x \<le> 2 ^ 63)"
  shows "\<exists>y. round_f64 x = Fin y \<and> 0 \<le> y \<and> near 1 x y"
proof -
  have "(1::real) / 2 ^ 1000 \<le> 1" "(2::real) ^ 63 \<le> 2 ^ 1000" by simp_all
  with assms have mag: "x = 0 \<or> (1 / 2 ^ 1000 \<le> x \<and> x \<le> 2 ^ 1000)" by linarith
  have n0: "near 0 x x" by (rule near_refl)
  from round_near [OF n0 _ mag] obtain y where "round_f64 x = Fin y" "0 \<le> y" "near (Suc 0) x y"
    by auto
  then show ?thesis by simp
qed

lemma near_float64:
  assumes "0 \<le> sint n"
  shows "\<exists>y. float64 n = Fin y \<and> 0 \<le> y \<and> near 1 (real_of_int (sint n)) y"
  unfolding float64_def by (rule round_near_int [OF sint_real_cases [OF assms]])

lemma go_div_mod_Second:
  assumes "0 < sint d"
  shows "0 \<le> sint (go_div d Second)" "0 \<le> sint (go_mod d Second)"
    "sint (go_mod d Second) < 1000000000"
    "sint d = sint (go_div d Second) * 1000000000 + sint (go_mod d Second)"
proof -
  define q where "q = sint d div 1000000000"
  define r where "r = sint d mod 1000000000"
  have q0: "0 \<le> q" using assms by (simp add: q_def pos_imp_zdiv_nonneg_iff)
  have r0: "0 \<le> r" "r < 1000000000" by (simp_all add: r_def)
  have dq: "sint d = q * 1000000000 + r" by (simp add: q_def r_def)
  with q0 r0 have "q \<le> sint d" by linarith
  then have qb: "q < 2 ^ 63" using sint_lt [of d] by simp
  have s: "sint (1000000000 :: int64) = 1000000000" by simp
  have "sint d sdiv 1000000000 = q"
    using assms by (simp add: signed_divide_int_def q_def)
  then have gd: "sint (go_div d Second) = q"
    using q0 qb by (simp add: go_div_def Second_def s sint_word_of_int_id)
  have "sint d smod 1000000000 = r"
    using assms by (simp add: signed_modulo_int_def r_def)
  then have gm: "sint (go_mod d Second) = r"
    using r0 by (simp add: go_mod_def Second_def s sint_word_of_int_id)
  show "0 \<le> sint (go_div d Second)" "0 \<le> sint (go_mod d Second)"
    "sint (go_mod d Second) < 1000000000"
    "sint d = sint (go_div d Second) * 1000000000 + sint (go_mod d Second)"
    using q0 r0 dq by (simp_all only: gd gm)
qed

lemma Seconds_near:
  assumes "0 < sint d"
  shows "\<exists>y. Seconds d = Fin y \<and> 0 < y \<and> near 3 (real_of_int (sint d) / 1000000000) y"
proof -
  define D where "D = real_of_int (sint d)"
  define Q where "Q = real_of_int (sint (go_div d Second))"
  define R where "R = real_of_int (sint (go_mod d Second))"
  note dm = go_div_mod_Second [OF assms]
  have "real_of_int (sint d) =
      real_of_int (sint (go_div d Second) * 1000000000 + sint (go_mod d Second))"
    using dm(4) by (simp only:)
  then have DQR: "D = Q * 1000000000 + R"
    unfolding D_def Q_def R_def by (simp only: of_int_add of_int_mult of_int_numeral)
  have Q0: "0 \<le> Q" unfolding Q_def using dm(1) by (simp only: of_int_0_le_iff)
  have Rc: "R = 0 \<or> (1 \<le> R \<and> R \<le> 2 ^ 63)"
    unfolding R_def by (rule sint_real_cases [OF dm(2)])
  then have R0: "0 \<le> R" by linarith
  have "real_of_int (sint (go_mod d Second)) < real_of_int 1000000000"
    using dm(3) by (simp only: of_int_less_iff)
  then have R1: "R < 1000000000" unfolding R_def by (simp only: of_int_numeral)
  have "real_of_int 1 \<le> real_of_int (sint d)"
    using assms by (simp only: of_int_le_iff)
  then have D1: "1 \<le> D" unfolding D_def by (simp only: of_int_1)
  have D2: "D \<le> 2 ^ 63" unfolding D_def by (rule real_sint_bounds)
  from near_float64 [OF dm(1)] obtain a where
    a: "float64 (go_div d Second) = Fin a" "0 \<le> a" "near 1 Q a"
    unfolding Q_def by blast
  from near_float64 [OF dm(2)] obtain m where
    m: "float64 (go_mod d Second) = Fin m" "0 \<le> m" "near 1 R m"
    unfolding R_def by blast
  have "near (1 + 0) (R / 1000000000) (m / 1000000000)"
    using m(3) near_refl R0 m(2) by (rule near_div) simp_all
  then have n1: "near 1 (R / 1000000000) (m / 1000000000)" by simp
  have mag1: "R / 1000000000 = 0 \<or> (1 / 2 ^ 1000 \<le> R / 1000000000 \<and> R / 1000000000 \<le> 2 ^ 1000)"
  proof (cases "R = 0")
    case True
    then show ?thesis by simp
  next
    case False
    with Rc have "1 \<le> R" by simp
    then have "1 / 1000000000 \<le> R / 1000000000" by (simp add: field_simps)
    moreover have "(1::real) / 2 ^ 1000 \<le> 1 / 1000000000" by simp
    moreover have "R / 1000000000 \<le> 1" using R1 by simp
    moreover have "(1::real) \<le> 2 ^ 1000" by simp
    ultimately show ?thesis by linarith
  qed
  from round_near [OF n1 _ mag1] obtain c where
    c: "round_f64 (m / 1000000000) = Fin c" "0 \<le> c" "near (Suc 1) (R / 1000000000) c"
    by auto
  have n2: "near 2 (R / 1000000000) c" using c(3) by (simp add: numeral_2_eq_2)
  have "near 2 Q a" using a(3) _ Q0 a(2) by (rule near_mono) simp
  then have "near 2 (Q + R / 1000000000) (a + c)" using n2 by (rule near_add)
  moreover have "Q + R / 1000000000 = D / 1000000000" by (simp add: DQR)
  ultimately have n3: "near 2 (D / 1000000000) (a + c)" by simp
  have "1 / 1000000000 \<le> D / 1000000000" using D1 by (simp add: field_simps)
  moreover have "(1::real) / 2 ^ 1000 \<le> 1 / 1000000000" by simp
  moreover have "D / 1000000000 \<le> 2 ^ 63" using D1 D2 by (simp add: field_simps)
  moreover have "(2::real) ^ 63 \<le> 2 ^ 1000" by simp
  ultimately have lo: "1 / 2 ^ 1000 \<le> D / 1000000000" and hi: "D / 1000000000 \<le> 2 ^ 1000"
    by linarith+
  then have mag2: "D / 1000000000 = 0 \<or> (1 / 2 ^ 1000 \<le> D / 1000000000 \<and> D / 1000000000 \<le> 2 ^ 1000)"
    by simp
  from round_near [OF n3 _ mag2] obtain y where
    y: "round_f64 (a + c) = Fin y" "0 \<le> y" "near (Suc 2) (D / 1000000000) y"
    by auto
  have n4: "near 3 (D / 1000000000) y" using y(3) by (simp add: numeral_3_eq_3)
  have S0: "0 < D / 1000000000" using D1 by simp
  then have "0 \<le> D / 1000000000" by simp
  from near_half [OF n4 _ this] have "D / 1000000000 / 2 \<le> y" by simp
  with S0 have y0: "0 < y" by linarith
  have "Seconds d = Fin y"
    by (simp add: Seconds_def a(1) m(1) f64_div_def c(1) f64_add_def y(1))
  with y0 n4 show ?thesis unfolding D_def by blast
qed

lemma mbps_chain:
  assumes Bc: "B = 0 \<or> (1 \<le> B \<and> B \<le> 2 ^ 63)"
    and D1: "1 \<le> D" and D2: "D \<le> 2 ^ 63"
    and s: "0 < s" "near 3 (D / 1000000000) s"
  shows "\<exists>fb bits q1 y. round_f64 B = Fin fb \<and> round_f64 (fb * 8) = Fin bits \<and>
     round_f64 (bits / s) = Fin q1 \<and> round_f64 (q1 / 1000000) = Fin y \<and>
     \<bar>y - mbps_exact B D\<bar> \<le> mbps_exact B D / 2 ^ 49"
proof -
  from Bc have B0: "0 \<le> B" by linarith
  from round_near_int [OF Bc] obtain fb where
    fb: "round_f64 B = Fin fb" "0 \<le> fb" "near 1 B fb" by blast
  have n1: "near 1 (B * 8) (fb * 8)" using fb(3) by (rule near_scale) simp
  have mag1: "B * 8 = 0 \<or> (1 / 2 ^ 1000 \<le> B * 8 \<and> B * 8 \<le> 2 ^ 1000)"
  proof (cases "B = 0")
    case True
    then show ?thesis by simp
  next
    case False
    with Bc have "1 \<le> B" "B \<le> 2 ^ 63" by simp_all
    moreover have "(1::real) / 2 ^ 1000 \<le> 8" "(2::real) ^ 63 * 8 \<le> 2 ^ 1000" by simp_all
    ultimately show ?thesis by linarith
  qed
  from round_near [OF n1 _ mag1] obtain bits where
    bits: "round_f64 (fb * 8) = Fin bits" "0 \<le> bits" "near (Suc 1) (B * 8) bits"
    by auto
  have n2: "near 2 (B * 8) bits" using bits(3) by (simp add: numeral_2_eq_2)
  have S0: "0 < D / 1000000000" using D1 by simp
  have B8: "0 \<le> B * 8" using B0 by simp
  have n3: "near (2 + 3) (B * 8 / (D / 1000000000)) (bits / s)"
    using n2 s(2) B8 bits(2) S0 s(1) by (rule near_div)
  define X where "X = B * 8 / (D / 1000000000)"
  have Xeq: "X = B * 8000000000 / D" by (simp add: X_def)
  have X0: "0 \<le> X" unfolding Xeq using B0 D1 by simp
  have magX: "X = 0 \<or> (1 / 2 ^ 900 \<le> X \<and> X \<le> 2 ^ 900)"
  proof (cases "B = 0")
    case True
    then show ?thesis by (simp add: Xeq)
  next
    case False
    with Bc have B1: "1 \<le> B" "B \<le> 2 ^ 63" by simp_all
    have "1 * 8000000000 / 2 ^ 63 \<le> B * 8000000000 / D"
      using B1 D1 D2 by (intro frac_le) simp_all
    moreover have "(1::real) / 2 ^ 900 \<le> 1 * 8000000000 / 2 ^ 63" by simp
    moreover have "B * 8000000000 / D \<le> 2 ^ 63 * 8000000000 / 1"
      using B1 D1 by (intro frac_le) simp_all
    moreover have "(2::real) ^ 63 * 8000000000 / 1 \<le> 2 ^ 900" by simp
    ultimately show ?thesis unfolding Xeq by linarith
  qed
  have "(1::real) / 2 ^ 1000 \<le> 1 / 2 ^ 900" "(2::real) ^ 900 \<le> 2 ^ 1000" by simp_all
  with magX have mag2: "X = 0 \<or> (1 / 2 ^ 1000 \<le> X \<and> X \<le> 2 ^ 1000)" by linarith
  have n3': "near 5 X (bits / s)" using n3 by (simp add: X_def)
  from round_near [OF n3' _ mag2] obtain q1 where
    q1: "round_f64 (bits / s) = Fin q1" "0 \<le> q1" "near (Suc 5) X q1"
    by auto
  have n4: "near 6 X q1"
  proof -
    have "Suc 5 = 6" by simp
    with q1(3) show ?thesis by (simp only:)
  qed
  have "near (6 + 0) (X / 1000000) (q1 / 1000000)"
    using n4 near_refl X0 q1(2) by (rule near_div) simp_all
  then have n5: "near 6 (X / 1000000) (q1 / 1000000)" by simp
  have mag3: "X / 1000000 = 0 \<or> (1 / 2 ^ 1000 \<le> X / 1000000 \<and> X / 1000000 \<le> 2 ^ 1000)"
  proof (cases "X = 0")
    case True
    then show ?thesis by simp
  next
    case False
    with magX have x: "1 / 2 ^ 900 \<le> X" "X \<le> 2 ^ 900" by simp_all
    have "1 / 2 ^ 900 / 1000000 \<le> X / 1000000" using x(1) by (simp add: field_simps)
    moreover have "(1::real) / 2 ^ 1000 \<le> 1 / 2 ^ 900 / 1000000" by simp
    moreover have "X / 1000000 \<le> X" using X0 by simp
    moreover have "(2::real) ^ 900 \<le> 2 ^ 1000" by simp
    ultimately show ?thesis using x(2) by linarith
  qed
  from round_near [OF n5 _ mag3] obtain y where
    y: "round_f64 (q1 / 1000000) = Fin y" "0 \<le> y" "near (Suc 6) (X / 1000000) y"
    by auto
  have n6: "near 7 (X / 1000000) y"
  proof -
    have "Suc 6 = 7" by simp
    with y(3) show ?thesis by (simp only:)
  qed
  have "0 \<le> X / 1000000" using X0 by simp
  with n6 have acc: "\<bar>y - X / 1000000\<bar> \<le> X / 1000000 / 2 ^ 49" by (rule near_7_abs)
  have ex: "mbps_exact B D = X / 1000000" by (simp add: mbps_exact_def X_def)
  from fb(1) bits(1) q1(1) y(1) acc show ?thesis unfolding ex by blast
qed

lemma bytesToMbps_accuracy:
  assumes "0 < sint d"
  shows "\<exists>y. bytesToMbps b d = Fin y \<and>
     \<bar>y - mbps_exact (real_of_int (sint b)) (real_of_int (sint d))\<bar>
       \<le> \<bar>mbps_exact (real_of_int (sint b)) (real_of_int (sint d))\<bar> / 2 ^ 49"
proof -
  define B where "B = real_of_int (sint b)"
  define D where "D = real_of_int (sint d)"
  have "real_of_int 1 \<le> real_of_int (sint d)"
    using assms by (simp only: of_int_le_iff)
  then have D1: "1 \<le> D" unfolding D_def by (simp only: of_int_1)
  have D2: "D \<le> 2 ^ 63" unfolding D_def by (rule real_sint_bounds)
  from Seconds_near [OF assms] obtain s where
    s: "Seconds d = Fin s" "0 < s" "near 3 (D / 1000000000) s"
    unfolding D_def by blast
  have fl: "float64 b = round_f64 B" by (simp only: float64_def B_def)
  have code: "bytesToMbps b d =
      f64_div (f64_div (f64_mul (round_f64 B) (Fin 8)) (Fin s)) (Fin 1000000)"
    using assms by (simp add: bytesToMbps_def Let_def fl s(1))
  show ?thesis
  proof (cases "0 \<le> sint b")
    case True
    have Bc: "B = 0 \<or> (1 \<le> B \<and> B \<le> 2 ^ 63)"
      unfolding B_def by (rule sint_real_cases [OF True])
    from mbps_chain [OF Bc D1 D2 s(2,3)] obtain fb bits q1 y where
      c: "round_f64 B = Fin fb" "round_f64 (fb * 8) = Fin bits"
        "round_f64 (bits / s) = Fin q1" "round_f64 (q1 / 1000000) = Fin y"
        "\<bar>y - mbps_exact B D\<bar> \<le> mbps_exact B D / 2 ^ 49" by blast
    have "bytesToMbps b d = Fin y"
      using s(2) by (simp add: code c(1-4) f64_mul_def f64_div_def)
    moreover have "mbps_exact B D / 2 ^ 49 \<le> \<bar>mbps_exact B D\<bar> / 2 ^ 49"
      by (simp add: divide_right_mono)
    ultimately show ?thesis using c(5) unfolding B_def D_def by force
  next
    case False
    then have "sint b \<le> - 1" by simp
    then have "real_of_int (sint b) \<le> real_of_int (- 1)" by (simp only: of_int_le_iff)
    then have Bn: "B \<le> - 1" unfolding B_def by (simp del: of_int_sint)
    have "- (2 ^ 63) \<le> B" unfolding B_def by (rule real_sint_bounds)
    with Bn have Bc: "- B = 0 \<or> (1 \<le> - B \<and> - B \<le> 2 ^ 63)" by simp
    from mbps_chain [OF Bc D1 D2 s(2,3)] obtain fb bits q1 y where
      c: "round_f64 (- B) = Fin fb" "round_f64 (fb * 8) = Fin bits"
        "round_f64 (bits / s) = Fin q1" "round_f64 (q1 / 1000000) = Fin y"
        "\<bar>y - mbps_exact (- B) D\<bar> \<le> mbps_exact (- B) D / 2 ^ 49" by blast
    have r1: "round_f64 B = Fin (- fb)"
      using round_f64_neg [of "- B"] c(1) by simp
    have r2: "round_f64 (- (fb * 8)) = Fin (- bits)"
      using round_f64_neg [of "fb * 8"] c(2) by simp
    have r3: "round_f64 (- (bits / s)) = Fin (- q1)"
      using round_f64_neg [of "bits / s"] c(3) by simp
    have r4: "round_f64 (- (q1 / 1000000)) = Fin (- y)"
      using round_f64_neg [of "q1 / 1000000"] c(4) by simp
    have res: "bytesToMbps b d = Fin (- y)"
      using s(2) by (simp add: code r1 r2 r3 r4 f64_mul_def f64_div_def)
    have m: "mbps_exact (- B) D = - mbps_exact B D" by (simp add: mbps_exact_def)
    from c(5) have "\<bar>- y - mbps_exact B D\<bar> \<le> - mbps_exact B D / 2 ^ 49"
      unfolding m by (simp add: abs_le_iff)
    moreover have "- mbps_exact B D / 2 ^ 49 \<le> \<bar>mbps_exact B D\<bar> / 2 ^ 49"
      by (intro divide_right_mono) simp_all
    ultimately have "\<bar>- y - mbps_exact B D\<bar> \<le> \<bar>mbps_exact B D\<bar> / 2 ^ 49" by linarith
    with res show ?thesis unfolding B_def D_def by blast
  qed
qed

lemma Seconds_accuracy:
  assumes "0 < sint d"
  shows "\<exists>y. Seconds d = Fin y \<and>
     \<bar>y - real_of_int (sint d) / 1000000000\<bar> \<le> real_of_int (sint d) / 1000000000 / 2 ^ 49"
proof -
  from Seconds_near [OF assms] obtain y where
    y: "Seconds d = Fin y" "0 < y" "near 3 (real_of_int (sint d) / 1000000000) y" by blast
  have "real_of_int 0 \<le> real_of_int (sint d)"
    using assms by (simp only: of_int_le_iff)
  then have "0 \<le> real_of_int (sint d) / 1000000000" by (simp del: of_int_sint)
  with y(3) have "\<bar>y - real_of_int (sint d) / 1000000000\<bar>
      \<le> real_of_int (sint d) / 1000000000 / 2 ^ 49"
    using y(2) by (intro near_abs [where k = 3]) simp_all
  with y(1) show ?thesis by blast
qed

subsection \<open>The throughput formula\<close>

text \<open>
  Claim C7. \<open>bytesToMbps b d\<close> is \<open>0\<close> when \<open>d \<le> 0\<close>. Otherwise it is the bit count
  \<open>b * 8\<close> divided by the seconds of \<open>d\<close> and then by \<open>1e6\<close>, computed in \<open>float64\<close>:
  the seconds are \<open>d / 1e9\<close> and the result is \<open>b * 8 / (d / 1e9) / 1e6\<close>, each within
  a relative error of \<open>2 ^ -49\<close> of the value in the reals, for every \<open>int64\<close> byte
  count and every positive duration. 2,000,000 bytes over one second give exactly 16.
\<close>

theorem bytesToMbps_formula:
  "(sint d \<le> 0 \<longrightarrow> bytesToMbps b d = Fin 0)
   \<and> (0 < sint d \<longrightarrow>
        bytesToMbps b d =
          f64_div (f64_div (f64_mul (float64 b) (Fin 8)) (Seconds d)) (Fin 1000000)
        \<and> (\<exists>s. Seconds d = Fin s \<and>
              \<bar>s - real_of_int (sint d) / 1000000000\<bar>
                \<le> real_of_int (sint d) / 1000000000 / 2 ^ 49)
        \<and> (\<exists>y. bytesToMbps b d = Fin y \<and>
              \<bar>y - mbps_exact (real_of_int (sint b)) (real_of_int (sint d))\<bar>
                \<le> \<bar>mbps_exact (real_of_int (sint b)) (real_of_int (sint d))\<bar> / 2 ^ 49))
   \<and> bytesToMbps 2000000 (1 * Second) = Fin 16"
proof (intro conjI impI)
  assume "sint d \<le> 0"
  then show "bytesToMbps b d = Fin 0" by (simp add: bytesToMbps_def)
next
  assume "0 < sint d"
  then show "bytesToMbps b d =
      f64_div (f64_div (f64_mul (float64 b) (Fin 8)) (Seconds d)) (Fin 1000000)"
    by (simp add: bytesToMbps_def)
next
  assume "0 < sint d"
  then show "\<exists>s. Seconds d = Fin s \<and>
      \<bar>s - real_of_int (sint d) / 1000000000\<bar> \<le> real_of_int (sint d) / 1000000000 / 2 ^ 49"
    by (rule Seconds_accuracy)
next
  assume "0 < sint d"
  then show "\<exists>y. bytesToMbps b d = Fin y \<and>
      \<bar>y - mbps_exact (real_of_int (sint b)) (real_of_int (sint d))\<bar>
        \<le> \<bar>mbps_exact (real_of_int (sint b)) (real_of_int (sint d))\<bar> / 2 ^ 49"
    by (rule bytesToMbps_accuracy)
next
  show "bytesToMbps 2000000 (1 * Second) = Fin 16"
    using bytesToMbps_scenario by simp
qed

theorem bytesToMbps_formula_witness:
  "sint (0 :: int64) \<le> 0 \<and> bytesToMbps 750 0 = Fin 0
   \<and> 0 < sint (1500000000 :: int64)
   \<and> Seconds 1500000000 = Fin (3 / 2)
   \<and> bytesToMbps 1000000 1500000000 = Fin (6004799503160661 / 1125899906842624)
   \<and> mbps_exact (real_of_int (sint (1000000 :: int64))) (real_of_int (sint (1500000000 :: int64)))
       = 16 / 3
   \<and> \<bar>6004799503160661 / 1125899906842624 - 16 / 3\<bar> \<le> \<bar>16 / 3 :: real\<bar> / 2 ^ 49"
proof -
  have v: "bytesToMbps 1000000 1500000000 = Fin (6004799503160661 / 1125899906842624)"
    by (simp add: bytesToMbps_def f64_eval go_eval round_eval)
  have s: "Seconds 1500000000 = Fin (3 / 2)"
    by (simp add: f64_eval go_eval round_eval)
  have m: "mbps_exact (real_of_int (sint (1000000 :: int64)))
      (real_of_int (sint (1500000000 :: int64))) = 16 / 3"
    by (simp add: mbps_exact_def)
  have p: "0 < sint (1500000000 :: int64)" by simp
  from bytesToMbps_formula [of 1500000000 1000000] p obtain y where
    "bytesToMbps 1000000 1500000000 = Fin y"
    "\<bar>y - mbps_exact (real_of_int (sint (1000000 :: int64)))
        (real_of_int (sint (1500000000 :: int64)))\<bar>
       \<le> \<bar>mbps_exact (real_of_int (sint (1000000 :: int64)))
           (real_of_int (sint (1500000000 :: int64)))\<bar> / 2 ^ 49"
    by blast
  then have a: "\<bar>6004799503160661 / 1125899906842624 - 16 / 3\<bar> \<le> \<bar>16 / 3 :: real\<bar> / 2 ^ 49"
    unfolding v m by simp
  have z: "bytesToMbps 750 0 = Fin 0"
    using bytesToMbps_formula [of 0 750] by simp
  from z p s v m a show ?thesis by simp
qed


subsection \<open>The ranges of the delivered events\<close>

lemma progress_cfg_normal: "normalizeClientConfig progress_cfg = progress_cfg"
  by (simp add: normalizeClientConfig_def progress_cfg_def example_cfg_def TrimRight_def Let_def)

lemma ping_progress_run:
  "runPing example_memory ping_three progress_cfg =
     Some (\<lparr>Min_ping = 10000000, Avg = 10000000, P95 = 10000000\<rparr>, None,
       [HttpGet ''http://h/ping'',
        Deliver \<lparr>Phase = ''ping'', Percent = Fin 100, ProgressUpdate.Mbps = Fin 0,
                 PingMs = Fin 10\<rparr>])"
  by (simp add: runPing_def ping_loop.simps ping_three_def progress_cfg_def example_cfg_def
      reportProgress_def Let_def avgDuration_def percentileDuration_def
      f64_eval go_eval round_eval)

lemma download_progress_run:
  "runDownload example_memory download_two_streams progress_cfg =
     Some (\<lparr>SpeedMetrics.Mbps = Fin 16, Bytes = 2000000, Duration = 1000000000\<rparr>, None,
       [HttpGet ''http://h/download?size=1048576'', HttpGet ''http://h/download?size=1048576'',
        Deliver \<lparr>Phase = ''download'', Percent = Fin (234375 / 8192),
                 ProgressUpdate.Mbps = Fin (5404319552844595 / 562949953421312),
                 PingMs = Fin 0\<rparr>,
        Deliver \<lparr>Phase = ''download'', Percent = Fin 100, ProgressUpdate.Mbps = Fin 16,
                 PingMs = Fin 0\<rparr>])"
  by (simp add: runDownload_def download_two_streams_def progress_cfg_def example_cfg_def run_eval
      bytesToMbps_def percentDone_def f64_eval go_eval round_eval format_d_example)

lemma upload_progress_run:
  "runUpload upload_deadline progress_cfg =
     Some (\<lparr>SpeedMetrics.Mbps = Fin 2, Bytes = 500000, Duration = 2000000000\<rparr>, None,
       [HttpPost ''http://h/upload'', HttpPost ''http://h/upload'',
        Deliver \<lparr>Phase = ''upload'', Percent = Fin 100, ProgressUpdate.Mbps = Fin 2,
                 PingMs = Fin 0\<rparr>])"
  by (simp add: runUpload_def upload_deadline_def progress_cfg_def example_cfg_def run_eval
      bytesToMbps_def f64_eval go_eval round_eval)

lemma world_progress_run:
  "RunClient world_ok progress_cfg =
     Some ((\<lparr>Ping = \<lparr>Min_ping = 10000000, Avg = 10000000, P95 = 10000000\<rparr>,
             Download = \<lparr>SpeedMetrics.Mbps = Fin 16, Bytes = 2000000, Duration = 1000000000\<rparr>,
             Upload = \<lparr>SpeedMetrics.Mbps = Fin 2, Bytes = 500000, Duration = 2000000000\<rparr>\<rparr>,
            None),
       [HttpGet ''http://h/ping'',
        Deliver \<lparr>Phase = ''ping'', Percent = Fin 100, ProgressUpdate.Mbps = Fin 0,
                 PingMs = Fin 10\<rparr>,
        HttpGet ''http://h/download?size=1048576'', HttpGet ''http://h/download?size=1048576'',
        Deliver \<lparr>Phase = ''download'', Percent = Fin (234375 / 8192),
                 ProgressUpdate.Mbps = Fin (5404319552844595 / 562949953421312),
                 PingMs = Fin 0\<rparr>,
        Deliver \<lparr>Phase = ''download'', Percent = Fin 100, ProgressUpdate.Mbps = Fin 16,
                 PingMs = Fin 0\<rparr>,
        HttpPost ''http://h/upload'', HttpPost ''http://h/upload'',
        Deliver \<lparr>Phase = ''upload'', Percent = Fin 100, ProgressUpdate.Mbps = Fin 2,
                 PingMs = Fin 0\<rparr>])"
  by (simp add: RunClient_def progress_cfg_normal world_ok_def ping_progress_run
      download_progress_run upload_progress_run)

text \<open>
  Claim C6. Every progress event delivered to the sink has its percent within
  \<open>[0, 100]\<close> and its Mbps and its ping-milliseconds not below \<open>0\<close>: in every run of
  the client and of each of its phases, under every schedule; and for every raw input
  that the reporter can be handed, among them negative values, percents above 100 and
  the infinities. A \<open>float64\<close> has one more value, the NaN, on which the comparisons of
  the clamp are false; no call of the reporter in the engine can pass it, its arguments
  being constants, conversions of integers and the results of \<open>percentDone\<close>,
  \<open>percentElapsed\<close> and \<open>bytesToMbps\<close>, none of which is ever a NaN.
\<close>

theorem progress_events_in_range:
  "(\<forall>res err fx. RunClient w cfg0 = Some ((res, err), fx) \<longrightarrow>
      list_all progress_in_range (deliveries fx))
   \<and> (\<forall>p err fx. runPing mem net cfg = Some (p, err, fx) \<longrightarrow>
      list_all progress_in_range (deliveries fx))
   \<and> (\<forall>m err fx. runDownload mem denv cfg = Some (m, err, fx) \<longrightarrow>
      list_all progress_in_range (deliveries fx))
   \<and> (\<forall>m err fx. runUpload uenv cfg = Some (m, err, fx) \<longrightarrow>
      list_all progress_in_range (deliveries fx))
   \<and> (percent \<noteq> NaN \<and> mbps \<noteq> NaN \<and> pingMs \<noteq> NaN \<longrightarrow>
      list_all progress_in_range (deliveries (reportProgress cfg phase percent mbps pingMs)))
   \<and> (\<forall>u. Deliver u \<in> set (reportProgress cfg phase percent mbps pingMs) \<longrightarrow>
      Progress cfg \<and> Phase u = phase)
   \<and> percentDone current total' \<noteq> NaN \<and> percentElapsed since target \<noteq> NaN
   \<and> bytesToMbps bytes duration \<noteq> NaN \<and> float64 n \<noteq> NaN"
proof (intro conjI allI impI)
  fix res err fx
  assume "RunClient w cfg0 = Some ((res, err), fx)"
  then show "list_all progress_in_range (deliveries fx)" by (rule RunClient_events_in_range)
next
  fix p err fx
  assume "runPing mem net cfg = Some (p, err, fx)"
  then have "events_in_range fx" by (rule runPing_in_range)
  then show "list_all progress_in_range (deliveries fx)" by (simp add: events_in_range_def)
next
  fix m err fx
  assume "runDownload mem denv cfg = Some (m, err, fx)"
  then have "events_in_range fx" by (rule runDownload_in_range)
  then show "list_all progress_in_range (deliveries fx)" by (simp add: events_in_range_def)
next
  fix m err fx
  assume "runUpload uenv cfg = Some (m, err, fx)"
  then have "events_in_range fx" by (rule runUpload_in_range)
  then show "list_all progress_in_range (deliveries fx)" by (simp add: events_in_range_def)
next
  assume "percent \<noteq> NaN \<and> mbps \<noteq> NaN \<and> pingMs \<noteq> NaN"
  then have "events_in_range (reportProgress cfg phase percent mbps pingMs)"
    by (intro reportProgress_in_range) simp_all
  then show "list_all progress_in_range
      (deliveries (reportProgress cfg phase percent mbps pingMs))"
    by (simp add: events_in_range_def)
next
  fix u
  assume "Deliver u \<in> set (reportProgress cfg phase percent mbps pingMs)"
  then show "Progress cfg" "Phase u = phase"
    by (auto simp: reportProgress_def Let_def split: if_splits)
next
  show "percentDone current total' \<noteq> NaN" by (rule percentDone_not_NaN)
  show "percentElapsed since target \<noteq> NaN" by (rule percentElapsed_not_NaN)
  show "bytesToMbps bytes duration \<noteq> NaN" by (rule bytesToMbps_not_NaN)
  show "float64 n \<noteq> NaN" by (rule float64_not_NaN)
qed

theorem progress_events_in_range_witness:
  "RunClient world_ok progress_cfg =
     Some ((\<lparr>Ping = \<lparr>Min_ping = 10000000, Avg = 10000000, P95 = 10000000\<rparr>,
             Download = \<lparr>SpeedMetrics.Mbps = Fin 16, Bytes = 2000000, Duration = 1000000000\<rparr>,
             Upload = \<lparr>SpeedMetrics.Mbps = Fin 2, Bytes = 500000, Duration = 2000000000\<rparr>\<rparr>,
            None),
       [HttpGet ''http://h/ping'',
        Deliver \<lparr>Phase = ''ping'', Percent = Fin 100, ProgressUpdate.Mbps = Fin 0,
                 PingMs = Fin 10\<rparr>,
        HttpGet ''http://h/download?size=1048576'', HttpGet ''http://h/download?size=1048576'',
        Deliver \<lparr>Phase = ''download'', Percent = Fin (234375 / 8192),
                 ProgressUpdate.Mbps = Fin (5404319552844595 / 562949953421312),
                 PingMs = Fin 0\<rparr>,
        Deliver \<lparr>Phase = ''download'', Percent = Fin 100, ProgressUpdate.Mbps = Fin 16,
                 PingMs = Fin 0\<rparr>,
        HttpPost ''http://h/upload'', HttpPost ''http://h/upload'',
        Deliver \<lparr>Phase = ''upload'', Percent = Fin 100, ProgressUpdate.Mbps = Fin 2,
                 PingMs = Fin 0\<rparr>])
   \<and> list_all progress_in_range
       [\<lparr>Phase = ''ping'', Percent = Fin 100, ProgressUpdate.Mbps = Fin 0, PingMs = Fin 10\<rparr>,
        \<lparr>Phase = ''download'', Percent = Fin (234375 / 8192),
          ProgressUpdate.Mbps = Fin (5404319552844595 / 562949953421312), PingMs = Fin 0\<rparr>,
        \<lparr>Phase = ''download'', Percent = Fin 100, ProgressUpdate.Mbps = Fin 16,
          PingMs = Fin 0\<rparr>,
        \<lparr>Phase = ''upload'', Percent = Fin 100, ProgressUpdate.Mbps = Fin 2, PingMs = Fin 0\<rparr>]
   \<and> Fin (- 3) \<noteq> NaN \<and> Fin 250 \<noteq> NaN \<and> NInf \<noteq> NaN \<and> PInf \<noteq> NaN
   \<and> reportProgress progress_cfg ''upload'' (Fin 250) NInf PInf =
       [Deliver \<lparr>Phase = ''upload'', Percent = Fin 100, ProgressUpdate.Mbps = Fin 0,
                 PingMs = PInf\<rparr>]
   \<and> reportProgress progress_cfg ''download'' (Fin (- 3)) (Fin (- 3)) (Fin (- 3)) =
       [Deliver \<lparr>Phase = ''download'', Percent = Fin 0, ProgressUpdate.Mbps = Fin 0,
                 PingMs = Fin 0\<rparr>]
   \<and> list_all progress_in_range
       [\<lparr>Phase = ''upload'', Percent = Fin 100, ProgressUpdate.Mbps = Fin 0, PingMs = PInf\<rparr>,
        \<lparr>Phase = ''download'', Percent = Fin 0, ProgressUpdate.Mbps = Fin 0, PingMs = Fin 0\<rparr>]"
proof -
  have r1: "reportProgress progress_cfg ''upload'' (Fin 250) NInf PInf =
       [Deliver \<lparr>Phase = ''upload'', Percent = Fin 100, ProgressUpdate.Mbps = Fin 0,
                 PingMs = PInf\<rparr>]"
    by (simp add: reportProgress_def progress_cfg_def Let_def)
  have r2: "reportProgress progress_cfg ''download'' (Fin (- 3)) (Fin (- 3)) (Fin (- 3)) =
       [Deliver \<lparr>Phase = ''download'', Percent = Fin 0, ProgressUpdate.Mbps = Fin 0,
                 PingMs = Fin 0\<rparr>]"
    by (simp add: reportProgress_def progress_cfg_def Let_def)
  note t = progress_events_in_range [of world_ok progress_cfg]
  from t [THEN conjunct1] world_progress_run
  have a: "list_all progress_in_range
       [\<lparr>Phase = ''ping'', Percent = Fin 100, ProgressUpdate.Mbps = Fin 0, PingMs = Fin 10\<rparr>,
        \<lparr>Phase = ''download'', Percent = Fin (234375 / 8192),
          ProgressUpdate.Mbps = Fin (5404319552844595 / 562949953421312), PingMs = Fin 0\<rparr>,
        \<lparr>Phase = ''download'', Percent = Fin 100, ProgressUpdate.Mbps = Fin 16,
          PingMs = Fin 0\<rparr>,
        \<lparr>Phase = ''upload'', Percent = Fin 100, ProgressUpdate.Mbps = Fin 2, PingMs = Fin 0\<rparr>]"
    by (simp add: deliveries_simps)
  have b: "list_all progress_in_range
       [\<lparr>Phase = ''upload'', Percent = Fin 100, ProgressUpdate.Mbps = Fin 0, PingMs = PInf\<rparr>]"
    using progress_events_in_range
      [where percent = "Fin 250" and mbps = NInf and pingMs = PInf and cfg = progress_cfg
        and phase = "''upload''", THEN conjunct2, THEN conjunct2, THEN conjunct2,
        THEN conjunct2, THEN conjunct1]
    by (simp add: r1 deliveries_simps)
  have c: "list_all progress_in_range
       [\<lparr>Phase = ''download'', Percent = Fin 0, ProgressUpdate.Mbps = Fin 0, PingMs = Fin 0\<rparr>]"
    using progress_events_in_range
      [where percent = "Fin (- 3)" and mbps = "Fin (- 3)" and pingMs = "Fin (- 3)"
        and cfg = progress_cfg and phase = "''download''", THEN conjunct2, THEN conjunct2,
        THEN conjunct2, THEN conjunct2, THEN conjunct1]
    by (simp add: r2 deliveries_simps)
  from world_progress_run a b c r1 r2 show ?thesis by simp
qed


subsection \<open>The order of the phases\<close>

lemma runPing_None: "runPing mem net cfg = None \<longleftrightarrow> \<not> makeslice mem 8 (PingCount cfg)"
proof -
  obtain results e fx where "ping_loop net cfg 0 [] [] = (results, e, fx)"
    by (cases "ping_loop net cfg 0 [] []") auto
  then show ?thesis
    by (cases e) (simp_all add: runPing_def Let_def)
qed

lemma upload_all_fail_effects:
  "runUpload upload_all_fail example_cfg =
     Some (zero_SpeedMetrics, Some reset,
       [HttpPost ''http://h/upload'', HttpPost ''http://h/upload''])"
  by (simp add: runUpload_def upload_all_fail_def example_cfg_def reset_def run_eval)

text \<open>
  Claim C1. \<open>RunClient\<close> runs the ping phase on the normalised configuration. If that
  phase returns an error, \<open>RunClient\<close> returns this error with the zero \<open>Result\<close>, and
  the effects of the run are those of the ping phase alone. Otherwise the download
  phase runs next, and the same holds of its error, the effects being those of ping
  followed by those of download. Otherwise the upload phase runs last; its error is
  returned with the zero \<open>Result\<close>, and without an error the \<open>Result\<close> is made of the
  three phases' metrics. The requests of the ping phase are GETs of \<open>/ping\<close>, those of
  the download phase GETs of \<open>/download\<close>, those of the upload phase POSTs of
  \<open>/upload\<close>. \<open>RunClient\<close> fails to return only when the phase that it has reached
  does not return; the ping phase returns exactly when its slice of samples can be
  allocated.
\<close>

theorem RunClient_phases_in_order:
  "(\<forall>p e fx1.
      runPing (memory w) (ping_net w) (normalizeClientConfig cfg0) = Some (p, Some e, fx1) \<longrightarrow>
      RunClient w cfg0 = Some ((zero_Result, Some e), fx1))
   \<and> (\<forall>p fx1 d e fx2.
      runPing (memory w) (ping_net w) (normalizeClientConfig cfg0) = Some (p, None, fx1) \<and>
      runDownload (memory w) (download_net w) (normalizeClientConfig cfg0) = Some (d, Some e, fx2) \<longrightarrow>
      RunClient w cfg0 = Some ((zero_Result, Some e), fx1 @ fx2))
   \<and> (\<forall>p fx1 d fx2 u e fx3.
      runPing (memory w) (ping_net w) (normalizeClientConfig cfg0) = Some (p, None, fx1) \<and>
      runDownload (memory w) (download_net w) (normalizeClientConfig cfg0) = Some (d, None, fx2) \<and>
      runUpload (upload_net w) (normalizeClientConfig cfg0) = Some (u, Some e, fx3) \<longrightarrow>
      RunClient w cfg0 = Some ((zero_Result, Some e), fx1 @ fx2 @ fx3))
   \<and> (\<forall>p fx1 d fx2 u fx3.
      runPing (memory w) (ping_net w) (normalizeClientConfig cfg0) = Some (p, None, fx1) \<and>
      runDownload (memory w) (download_net w) (normalizeClientConfig cfg0) = Some (d, None, fx2) \<and>
      runUpload (upload_net w) (normalizeClientConfig cfg0) = Some (u, None, fx3) \<longrightarrow>
      RunClient w cfg0 =
        Some ((\<lparr>Ping = p, Download = d, Upload = u\<rparr>, None), fx1 @ fx2 @ fx3))
   \<and> (RunClient w cfg0 = None \<longleftrightarrow>
        runPing (memory w) (ping_net w) (normalizeClientConfig cfg0) = None \<or>
        (\<exists>p fx1.
           runPing (memory w) (ping_net w) (normalizeClientConfig cfg0) = Some (p, None, fx1) \<and>
           (runDownload (memory w) (download_net w) (normalizeClientConfig cfg0) = None \<or>
            (\<exists>d fx2.
               runDownload (memory w) (download_net w) (normalizeClientConfig cfg0) =
                 Some (d, None, fx2) \<and>
               runUpload (upload_net w) (normalizeClientConfig cfg0) = None))))
   \<and> (runPing (memory w) (ping_net w) (normalizeClientConfig cfg0) = None \<longleftrightarrow>
        \<not> makeslice (memory w) 8 (PingCount (normalizeClientConfig cfg0)))
   \<and> (\<forall>p perr fx1.
      runPing (memory w) (ping_net w) (normalizeClientConfig cfg0) = Some (p, perr, fx1) \<longrightarrow>
      set (requests fx1) \<subseteq> {HttpGet (BaseURL (normalizeClientConfig cfg0) @ ''/ping'')})
   \<and> (\<forall>d derr fx2.
      runDownload (memory w) (download_net w) (normalizeClientConfig cfg0) = Some (d, derr, fx2) \<longrightarrow>
      set (requests fx2)
        \<subseteq> {HttpGet (BaseURL (normalizeClientConfig cfg0) @ ''/download?size='' @
              format_d (DownloadMB (normalizeClientConfig cfg0) * 1024 * 1024))})
   \<and> (\<forall>u uerr fx3.
      runUpload (upload_net w) (normalizeClientConfig cfg0) = Some (u, uerr, fx3) \<longrightarrow>
      set (requests fx3) \<subseteq> {HttpPost (BaseURL (normalizeClientConfig cfg0) @ ''/upload'')})
   \<and> (\<forall>res err fx. RunClient w cfg0 = Some ((res, err), fx) \<longrightarrow>
      (\<exists>p perr fx1.
         runPing (memory w) (ping_net w) (normalizeClientConfig cfg0) = Some (p, perr, fx1) \<and>
         (case perr of
            Some e \<Rightarrow> res = zero_Result \<and> err = Some e \<and> fx = fx1
          | None \<Rightarrow>
              (\<exists>d derr fx2.
                 runDownload (memory w) (download_net w) (normalizeClientConfig cfg0) =
                   Some (d, derr, fx2) \<and>
                 (case derr of
                    Some e \<Rightarrow> res = zero_Result \<and> err = Some e \<and> fx = fx1 @ fx2
                  | None \<Rightarrow>
                      (\<exists>u uerr fx3.
                         runUpload (upload_net w) (normalizeClientConfig cfg0) =
                           Some (u, uerr, fx3) \<and>
                         fx = fx1 @ fx2 @ fx3 \<and>
                         (case uerr of
                            Some e \<Rightarrow> res = zero_Result \<and> err = Some e
                          | None \<Rightarrow>
                              res = \<lparr>Ping = p, Download = d, Upload = u\<rparr> \<and> err = None)))))))"
proof -
  define cfg where "cfg = normalizeClientConfig cfg0"
  define P where "P = runPing (memory w) (ping_net w) cfg"
  define D where "D = runDownload (memory w) (download_net w) cfg"
  define U where "U = runUpload (upload_net w) cfg"
  have rc: "RunClient w cfg0 =
     (case P of
        None \<Rightarrow> None
      | Some (pingRes, Some err, fx1) \<Rightarrow> Some ((zero_Result, Some err), fx1)
      | Some (pingRes, None, fx1) \<Rightarrow>
          (case D of
             None \<Rightarrow> None
           | Some (downloadRes, Some err, fx2) \<Rightarrow> Some ((zero_Result, Some err), fx1 @ fx2)
           | Some (downloadRes, None, fx2) \<Rightarrow>
               (case U of
                  None \<Rightarrow> None
                | Some (uploadRes, Some err, fx3) \<Rightarrow>
                    Some ((zero_Result, Some err), fx1 @ fx2 @ fx3)
                | Some (uploadRes, None, fx3) \<Rightarrow>
                    Some ((\<lparr>Ping = pingRes, Download = downloadRes, Upload = uploadRes\<rparr>,
                           None), fx1 @ fx2 @ fx3))))"
    unfolding RunClient_def Let_def P_def D_def U_def cfg_def by (rule refl)
  have 1: "\<forall>p e fx1. P = Some (p, Some e, fx1) \<longrightarrow>
      RunClient w cfg0 = Some ((zero_Result, Some e), fx1)"
    by (simp add: rc)
  have 2: "\<forall>p fx1 d e fx2. P = Some (p, None, fx1) \<and> D = Some (d, Some e, fx2) \<longrightarrow>
      RunClient w cfg0 = Some ((zero_Result, Some e), fx1 @ fx2)"
    by (simp add: rc)
  have 3: "\<forall>p fx1 d fx2 u e fx3.
      P = Some (p, None, fx1) \<and> D = Some (d, None, fx2) \<and> U = Some (u, Some e, fx3) \<longrightarrow>
      RunClient w cfg0 = Some ((zero_Result, Some e), fx1 @ fx2 @ fx3)"
    by (simp add: rc)
  have 4: "\<forall>p fx1 d fx2 u fx3.
      P = Some (p, None, fx1) \<and> D = Some (d, None, fx2) \<and> U = Some (u, None, fx3) \<longrightarrow>
      RunClient w cfg0 =
        Some ((\<lparr>Ping = p, Download = d, Upload = u\<rparr>, None), fx1 @ fx2 @ fx3)"
    by (simp add: rc)
  have 5: "RunClient w cfg0 = None \<longleftrightarrow>
        P = None \<or>
        (\<exists>p fx1. P = Some (p, None, fx1) \<and>
           (D = None \<or> (\<exists>d fx2. D = Some (d, None, fx2) \<and> U = None)))"
    unfolding rc by (auto split: option.splits)
  have 6: "P = None \<longleftrightarrow> \<not> makeslice (memory w) 8 (PingCount cfg)"
    unfolding P_def by (rule runPing_None)
  have 7: "\<forall>p perr fx1. P = Some (p, perr, fx1) \<longrightarrow>
      set (requests fx1) \<subseteq> {HttpGet (BaseURL cfg @ ''/ping'')}"
    unfolding P_def using runPing_requests by blast
  have 8: "\<forall>d derr fx2. D = Some (d, derr, fx2) \<longrightarrow>
      set (requests fx2)
        \<subseteq> {HttpGet (BaseURL cfg @ ''/download?size='' @ format_d (DownloadMB cfg * 1024 * 1024))}"
    unfolding D_def using runDownload_requests by blast
  have 9: "\<forall>u uerr fx3. U = Some (u, uerr, fx3) \<longrightarrow>
      set (requests fx3) \<subseteq> {HttpPost (BaseURL cfg @ ''/upload'')}"
    unfolding U_def using runUpload_requests by blast
  have 10: "\<forall>res err fx. RunClient w cfg0 = Some ((res, err), fx) \<longrightarrow>
      (\<exists>p perr fx1.
         P = Some (p, perr, fx1) \<and>
         (case perr of
            Some e \<Rightarrow> res = zero_Result \<and> err = Some e \<and> fx = fx1
          | None \<Rightarrow>
              (\<exists>d derr fx2.
                 D = Some (d, derr, fx2) \<and>
                 (case derr of
                    Some e \<Rightarrow> res = zero_Result \<and> err = Some e \<and> fx = fx1 @ fx2
                  | None \<Rightarrow>
                      (\<exists>u uerr fx3.
                         U = Some (u, uerr, fx3) \<and>
                         fx = fx1 @ fx2 @ fx3 \<and>
                         (case uerr of
                            Some e \<Rightarrow> res = zero_Result \<and> err = Some e
                          | None \<Rightarrow>
                              res = \<lparr>Ping = p, Download = d, Upload = u\<rparr> \<and> err = None))))))"
    unfolding P_def D_def U_def cfg_def using RunClient_cases by blast
  from 1 2 3 4 5 6 7 8 9 10 show ?thesis
    unfolding P_def D_def U_def cfg_def by (intro conjI)
qed


theorem RunClient_phases_in_order_witness:
  "runPing (memory world_ping_fails) (ping_net world_ping_fails)
       (normalizeClientConfig example_cfg) =
     Some (zero_PingMetrics, Some reset,
       [HttpGet ''http://h/ping'', Sleep 150000000, HttpGet ''http://h/ping''])
   \<and> RunClient world_ping_fails example_cfg =
     Some ((zero_Result, Some reset),
       [HttpGet ''http://h/ping'', Sleep 150000000, HttpGet ''http://h/ping''])
   \<and> runDownload (memory world_download_fails) (download_net world_download_fails)
       (normalizeClientConfig example_cfg) =
     Some (zero_SpeedMetrics, Some reset,
       [HttpGet ''http://h/download?size=1048576'', HttpGet ''http://h/download?size=1048576''])
   \<and> RunClient world_download_fails example_cfg =
     Some ((zero_Result, Some reset),
       [HttpGet ''http://h/ping'', Sleep 150000000, HttpGet ''http://h/ping'',
        Sleep 150000000, HttpGet ''http://h/ping'',
        HttpGet ''http://h/download?size=1048576'', HttpGet ''http://h/download?size=1048576''])
   \<and> runUpload (upload_net world_upload_fails) (normalizeClientConfig example_cfg) =
     Some (zero_SpeedMetrics, Some reset,
       [HttpPost ''http://h/upload'', HttpPost ''http://h/upload''])
   \<and> RunClient world_upload_fails example_cfg =
     Some ((zero_Result, Some reset),
       [HttpGet ''http://h/ping'', Sleep 150000000, HttpGet ''http://h/ping'',
        Sleep 150000000, HttpGet ''http://h/ping'',
        HttpGet ''http://h/download?size=1048576'', HttpGet ''http://h/download?size=1048576'',
        HttpPost ''http://h/upload'', HttpPost ''http://h/upload''])
   \<and> RunClient world_ok example_cfg =
     Some ((\<lparr>Ping = \<lparr>Min_ping = 10000000, Avg = 20000000, P95 = 30000000\<rparr>,
             Download = \<lparr>SpeedMetrics.Mbps = Fin 16, Bytes = 2000000, Duration = 1000000000\<rparr>,
             Upload = \<lparr>SpeedMetrics.Mbps = Fin 2, Bytes = 500000, Duration = 2000000000\<rparr>\<rparr>,
            None),
       [HttpGet ''http://h/ping'', Sleep 150000000, HttpGet ''http://h/ping'',
        Sleep 150000000, HttpGet ''http://h/ping'',
        HttpGet ''http://h/download?size=1048576'', HttpGet ''http://h/download?size=1048576'',
        HttpPost ''http://h/upload'', HttpPost ''http://h/upload''])
   \<and> set (requests [HttpGet ''http://h/ping'', Sleep 150000000, HttpGet ''http://h/ping''])
       \<subseteq> {HttpGet (BaseURL (normalizeClientConfig example_cfg) @ ''/ping'')}
   \<and> \<not> makeslice (memory world_ok) 8
         (PingCount (normalizeClientConfig (example_cfg\<lparr>PingCount := 2 ^ 62\<rparr>)))
   \<and> RunClient world_ok (example_cfg\<lparr>PingCount := 2 ^ 62\<rparr>) = None"
proof -
  let ?ping2 = "[HttpGet ''http://h/ping'', Sleep 150000000, HttpGet ''http://h/ping'']"
  let ?ping3 = "[HttpGet ''http://h/ping'', Sleep 150000000, HttpGet ''http://h/ping'',
        Sleep 150000000, HttpGet ''http://h/ping'']"
  let ?down = "[HttpGet ''http://h/download?size=1048576'',
        HttpGet ''http://h/download?size=1048576'']"
  let ?up = "[HttpPost ''http://h/upload'', HttpPost ''http://h/upload'']"
  let ?pm = "\<lparr>Min_ping = 10000000, Avg = 20000000, P95 = 30000000\<rparr>"
  let ?dm = "\<lparr>SpeedMetrics.Mbps = Fin 16, Bytes = 2000000, Duration = 1000000000\<rparr>"
  let ?um = "\<lparr>SpeedMetrics.Mbps = Fin 2, Bytes = 500000, Duration = 2000000000\<rparr>"
  have p1: "runPing (memory world_ping_fails) (ping_net world_ping_fails)
       (normalizeClientConfig example_cfg) = Some (zero_PingMetrics, Some reset, ?ping2)"
    by (simp add: normalize_example world_ping_fails_def ping_second_fails_run)
  from RunClient_phases_in_order [of world_ping_fails example_cfg, THEN conjunct1] p1
  have r1: "RunClient world_ping_fails example_cfg = Some ((zero_Result, Some reset), ?ping2)"
    by blast
  from RunClient_phases_in_order [of world_ping_fails example_cfg] p1
  have q1: "set (requests ?ping2)
       \<subseteq> {HttpGet (BaseURL (normalizeClientConfig example_cfg) @ ''/ping'')}"
    by blast
  have p2: "runPing (memory world_download_fails) (ping_net world_download_fails)
       (normalizeClientConfig example_cfg) = Some (?pm, None, ?ping3)"
    by (simp add: normalize_example world_download_fails_def ping_three_run)
  have d2: "runDownload (memory world_download_fails) (download_net world_download_fails)
       (normalizeClientConfig example_cfg) = Some (zero_SpeedMetrics, Some reset, ?down)"
    by (simp add: normalize_example world_download_fails_def download_all_fail_effects)
  from RunClient_phases_in_order
    [of world_download_fails example_cfg, THEN conjunct2, THEN conjunct1] p2 d2
  have "RunClient world_download_fails example_cfg =
      Some ((zero_Result, Some reset), ?ping3 @ ?down)"
    by blast
  then have r2: "RunClient world_download_fails example_cfg =
      Some ((zero_Result, Some reset),
       [HttpGet ''http://h/ping'', Sleep 150000000, HttpGet ''http://h/ping'',
        Sleep 150000000, HttpGet ''http://h/ping'',
        HttpGet ''http://h/download?size=1048576'', HttpGet ''http://h/download?size=1048576''])"
    by simp
  have p3: "runPing (memory world_upload_fails) (ping_net world_upload_fails)
       (normalizeClientConfig example_cfg) = Some (?pm, None, ?ping3)"
    by (simp add: normalize_example world_upload_fails_def ping_three_run)
  have d3: "runDownload (memory world_upload_fails) (download_net world_upload_fails)
       (normalizeClientConfig example_cfg) = Some (?dm, None, ?down)"
    by (simp add: normalize_example world_upload_fails_def download_two_streams_effects)
  have u3: "runUpload (upload_net world_upload_fails) (normalizeClientConfig example_cfg) =
       Some (zero_SpeedMetrics, Some reset, ?up)"
    by (simp add: normalize_example world_upload_fails_def upload_all_fail_effects)
  from RunClient_phases_in_order
    [of world_upload_fails example_cfg, THEN conjunct2, THEN conjunct2, THEN conjunct1]
    p3 d3 u3
  have "RunClient world_upload_fails example_cfg =
      Some ((zero_Result, Some reset), ?ping3 @ ?down @ ?up)"
    by blast
  then have r3: "RunClient world_upload_fails example_cfg =
      Some ((zero_Result, Some reset),
       [HttpGet ''http://h/ping'', Sleep 150000000, HttpGet ''http://h/ping'',
        Sleep 150000000, HttpGet ''http://h/ping'',
        HttpGet ''http://h/download?size=1048576'', HttpGet ''http://h/download?size=1048576'',
        HttpPost ''http://h/upload'', HttpPost ''http://h/upload''])"
    by simp
  have p4: "runPing (memory world_ok) (ping_net world_ok)
       (normalizeClientConfig example_cfg) = Some (?pm, None, ?ping3)"
    by (simp add: normalize_example world_ok_def ping_three_run)
  have d4: "runDownload (memory world_ok) (download_net world_ok)
       (normalizeClientConfig example_cfg) = Some (?dm, None, ?down)"
    by (simp add: normalize_example world_ok_def download_two_streams_effects)
  have u4: "runUpload (upload_net world_ok) (normalizeClientConfig example_cfg) =
       Some (?um, None, ?up)"
    by (simp add: normalize_example world_ok_def upload_deadline_effects)
  from RunClient_phases_in_order
    [of world_ok example_cfg, THEN conjunct2, THEN conjunct2, THEN conjunct2, THEN conjunct1]
    p4 d4 u4
  have "RunClient world_ok example_cfg =
      Some ((\<lparr>Ping = ?pm, Download = ?dm, Upload = ?um\<rparr>, None), ?ping3 @ ?down @ ?up)"
    by blast
  then have r4: "RunClient world_ok example_cfg =
     Some ((\<lparr>Ping = ?pm, Download = ?dm, Upload = ?um\<rparr>, None),
       [HttpGet ''http://h/ping'', Sleep 150000000, HttpGet ''http://h/ping'',
        Sleep 150000000, HttpGet ''http://h/ping'',
        HttpGet ''http://h/download?size=1048576'', HttpGet ''http://h/download?size=1048576'',
        HttpPost ''http://h/upload'', HttpPost ''http://h/upload''])"
    by simp
  have big: "\<not> makeslice (memory world_ok) 8
         (PingCount (normalizeClientConfig (example_cfg\<lparr>PingCount := 2 ^ 62\<rparr>)))"
    by (simp add: normalizeClientConfig_def example_cfg_def TrimRight_def Let_def world_ok_def
        makeslice_def maxAlloc_def example_memory_def)
  note t5 = RunClient_phases_in_order [of world_ok "example_cfg\<lparr>PingCount := 2 ^ 62\<rparr>"]
  from t5 big
  have "runPing (memory world_ok) (ping_net world_ok)
      (normalizeClientConfig (example_cfg\<lparr>PingCount := 2 ^ 62\<rparr>)) = None"
    by blast
  with t5 have r5: "RunClient world_ok (example_cfg\<lparr>PingCount := 2 ^ 62\<rparr>) = None"
    by blast
  from p1 r1 d2 r2 u3 r3 r4 q1 big r5 show ?thesis by (intro conjI)
qed


subsection \<open>The events of the ping phase, in whole milliseconds\<close>









text \<open>
  The reading of the clock that the event carries is not the sample: \<open>runPing\<close> calls
  \<open>time.Since(start)\<close> once for the sample it records and once more for the event that
  it reports. When the clock passes a millisecond boundary between the two calls, the
  event shows another millisecond than the sample does.
\<close>

lemma runPing_second_reading:
  "runPing example_memory ping_jitter progress_cfg =
     Some (\<lparr>Min_ping = 10999999, Avg = 10999999, P95 = 10999999\<rparr>, None,
       [HttpGet ''http://h/ping'',
        Deliver \<lparr>Phase = ''ping'', Percent = Fin 100, ProgressUpdate.Mbps = Fin 0,
                 PingMs = Fin 11\<rparr>])
   \<and> sample_event progress_cfg ping_jitter 0 =
       \<lparr>Phase = ''ping'', Percent = Fin 100, ProgressUpdate.Mbps = Fin 0, PingMs = Fin 10\<rparr>"
  by (simp add: runPing_def ping_loop.simps ping_jitter_def progress_cfg_def example_cfg_def
      reportProgress_def Let_def avgDuration_def percentileDuration_def sample_event_def
      f64_eval go_eval round_eval)

end
